theory Spec2Isabelle
  imports Main "HOL-Library.Multiset"
begin

section \<open>Data model of \<^verbatim>\<open>src/internal/utils/layout.ts\<close>\<close>

text \<open>
  Numbers are integers. A \<^verbatim>\<open>number\<close> that the code computes from the column heights can
  also be \<^verbatim>\<open>NaN\<close>: reading \<^verbatim>\<open>columnHeights[col]\<close> outside the array gives
  \<^verbatim>\<open>undefined\<close>, and \<^verbatim>\<open>Math.max\<close> turns it into \<^verbatim>\<open>NaN\<close>. Such a value is
  \<open>None\<close>; \<^verbatim>\<open>undefined\<close> and \<^verbatim>\<open>NaN\<close> behave alike under \<^verbatim>\<open>Math.max\<close>, \<^verbatim>\<open>+\<close>
  and \<^verbatim>\<open><=\<close>, the only operations applied to them.
\<close>

type_synonym ItemId = string
type_synonym number = "int option"

text \<open>
  \<^verbatim>\<open>BoardItemLayoutSetting\<close> is an object \<^verbatim>\<open>{ [columns: number]: number }\<close>. The objects live
  in a store, and an item holds references to them: \<^verbatim>\<open>transformItems\<close> copies an item
  shallowly and then writes into the setting objects, so the writes reach every holder of
  the same object. A reference is an index into the store.
\<close>

type_synonym BoardItemLayoutSetting = "int \<rightharpoonup> int"
type_synonym ref = nat
type_synonym store = "BoardItemLayoutSetting list"

text \<open>The \<^verbatim>\<open>definition\<close> field of an item.\<close>

record ItemDefinition =
  defMinRowSpan :: "int option"
  defMinColumnSpan :: "ref option"
  defDefaultRowSpan :: "int option"
  defDefaultColumnSpan :: "ref option"

text \<open>
  \<^verbatim>\<open>BoardItemDefinition<D>\<close>: field \<^verbatim>\<open>f\<close> of the source is \<open>itemF\<close> here
  (\<^verbatim>\<open>item.columnSpan\<close> is \<open>itemColumnSpan item\<close>). An absent optional field is \<open>None\<close>.
\<close>

record 'd BoardItemDefinition =
  itemId :: ItemId
  itemDefinition :: "ItemDefinition option"
  itemData :: 'd
  itemColumnOffset :: "ref option"
  itemRowSpan :: "ref option"
  itemColumnSpan :: "ref option"

text \<open>\<^verbatim>\<open>GridLayoutItem\<close> (\<^verbatim>\<open>id, x, y, width, height\<close>) and \<^verbatim>\<open>GridLayout\<close>
  (\<^verbatim>\<open>items, columns, rows\<close>).\<close>

record GridLayoutItem =
  gId :: ItemId
  gX :: int
  gY :: number
  gWidth :: int
  gHeight :: int

record GridLayout =
  gridItems :: "GridLayoutItem list"
  gridColumns :: int
  gridRows :: number

text \<open>
  The two constants imported from \<^verbatim>\<open>../constants\<close>; that file is not part of the sources
  at hand, so every function that uses them takes them as a parameter.
\<close>

record Constants =
  MIN_COL_SPAN :: int
  MIN_ROW_SPAN :: int

text \<open>
  What a call can end in besides a value. \<open>RangeError\<close>: \<^verbatim>\<open>Array(columns)\<close> with a
  length that is negative or above \<open>2\<^sup>3\<^sup>2 - 1\<close>. \<open>TypeError\<close>: \<^verbatim>\<open>sourceItems[index].id\<close>
  past the end of \<^verbatim>\<open>sourceItems\<close>. \<open>InvariantViolation\<close>: the \<^verbatim>\<open>Error\<close> thrown by
  \<^verbatim>\<open>getItem\<close>. \<open>UnspecifiedOrder\<close> is not an exception of the program: it marks the one
  case in which the model does not compute the array that \<^verbatim>\<open>Array.prototype.sort\<close>
  returns (64 or more items that the comparator does not order, see \<open>sortItems\<close>).
\<close>

datatype failure = RangeError | TypeError | InvariantViolation | UnspecifiedOrder

section \<open>Reading settings\<close>

text \<open>\<^verbatim>\<open>setting?.[key]\<close>: \<open>None\<close> is \<^verbatim>\<open>undefined\<close>.\<close>

definition readSetting :: "store \<Rightarrow> ref option \<Rightarrow> int \<Rightarrow> int option" where
  "readSetting st setting key =
     (case setting of
        None \<Rightarrow> None
      | Some r \<Rightarrow> (if r < length st then (st ! r) key else None))"

text \<open>The loop \<^verbatim>\<open>for (let i = columns; i >= 0; i--)\<close> of \<^verbatim>\<open>getColumnSpanForColumns\<close>.\<close>

function getColumnSpanForColumns_loop :: "store \<Rightarrow> ref option \<Rightarrow> int \<Rightarrow> int option" where
  "getColumnSpanForColumns_loop st columnSpan i =
     (if 0 \<le> i then
        (case readSetting st columnSpan i of
           Some v \<Rightarrow> Some v
         | None \<Rightarrow> getColumnSpanForColumns_loop st columnSpan (i - 1))
      else None)"
  by pat_completeness auto
termination
  by (relation "measure (\<lambda>(st, columnSpan, i). nat (i + 1))") auto

declare getColumnSpanForColumns_loop.simps [simp del]

definition getColumnSpanForColumns :: "Constants \<Rightarrow> store \<Rightarrow> ref option \<Rightarrow> int \<Rightarrow> int" where
  "getColumnSpanForColumns c st columnSpan columns =
     (case columnSpan of
        None \<Rightarrow> MIN_COL_SPAN c
      | Some r \<Rightarrow>
          (case getColumnSpanForColumns_loop st columnSpan columns of
             Some v \<Rightarrow> v
           | None \<Rightarrow> MIN_COL_SPAN c))"

definition getItemMinColumnSpan :: "Constants \<Rightarrow> store \<Rightarrow> 'd BoardItemDefinition \<Rightarrow> int \<Rightarrow> int" where
  "getItemMinColumnSpan c st item columns =
     max (MIN_COL_SPAN c)
       (getColumnSpanForColumns c st
          (case itemDefinition item of None \<Rightarrow> None | Some d \<Rightarrow> defMinColumnSpan d) columns)"

definition getItemDefaultColumnSpan :: "Constants \<Rightarrow> store \<Rightarrow> 'd BoardItemDefinition \<Rightarrow> int \<Rightarrow> int" where
  "getItemDefaultColumnSpan c st item columns =
     min columns
       (max (getItemMinColumnSpan c st item columns)
          (getColumnSpanForColumns c st
             (case itemDefinition item of None \<Rightarrow> None | Some d \<Rightarrow> defDefaultColumnSpan d) columns))"

text \<open>\<^verbatim>\<open>item.definition?.minRowSpan ?? 0\<close> and its sibling.\<close>

definition getItemMinRowSpan :: "Constants \<Rightarrow> 'd BoardItemDefinition \<Rightarrow> int" where
  "getItemMinRowSpan c item =
     max (MIN_ROW_SPAN c)
       (case itemDefinition item of
          None \<Rightarrow> 0
        | Some d \<Rightarrow> (case defMinRowSpan d of None \<Rightarrow> 0 | Some v \<Rightarrow> v))"

definition getItemDefaultRowSpan :: "Constants \<Rightarrow> 'd BoardItemDefinition \<Rightarrow> int" where
  "getItemDefaultRowSpan c item =
     max (getItemMinRowSpan c item)
       (case itemDefinition item of
          None \<Rightarrow> 0
        | Some d \<Rightarrow> (case defDefaultRowSpan d of None \<Rightarrow> 0 | Some v \<Rightarrow> v))"

section \<open>\<^verbatim>\<open>interpretItems\<close>\<close>

text \<open>The closures of \<^verbatim>\<open>interpretItems\<close> take what they capture (\<^verbatim>\<open>columns\<close>,
  \<^verbatim>\<open>columnHeights\<close>) as arguments.\<close>

definition getColumnSpan :: "Constants \<Rightarrow> store \<Rightarrow> int \<Rightarrow> 'd BoardItemDefinition \<Rightarrow> int" where
  "getColumnSpan c st columns item =
     (let minColumnSpan = getItemMinColumnSpan c st item columns;
          columnSpan = (case readSetting st (itemColumnSpan item) columns of
                          Some v \<Rightarrow> v
                        | None \<Rightarrow> getItemDefaultColumnSpan c st item columns)
      in max minColumnSpan columnSpan)"

definition getRowSpan :: "Constants \<Rightarrow> store \<Rightarrow> int \<Rightarrow> 'd BoardItemDefinition \<Rightarrow> int" where
  "getRowSpan c st columns item =
     (let minRowSpan = getItemMinRowSpan c item;
          rowSpan = (case readSetting st (itemRowSpan item) columns of
                       Some v \<Rightarrow> v
                     | None \<Rightarrow> getItemDefaultRowSpan c item)
      in max minRowSpan rowSpan)"

text \<open>
  \<^verbatim>\<open>columnHeights\<close>: the array and whatever else was stored on it. Index \<open>col\<close> holds a
  number, or \<open>None\<close> where a read gives \<^verbatim>\<open>undefined\<close> or \<^verbatim>\<open>NaN\<close>. A write outside the
  array (past its end, or at a negative key) is kept and read back, as in JavaScript.
\<close>

type_synonym heights = "int \<Rightarrow> number"

definition Math_max :: "number \<Rightarrow> number \<Rightarrow> number" where
  "Math_max a b = (case a of None \<Rightarrow> None | Some p \<Rightarrow> (case b of None \<Rightarrow> None | Some q \<Rightarrow> Some (max p q)))"

function getRowOffset_loop :: "heights \<Rightarrow> int \<Rightarrow> int \<Rightarrow> number \<Rightarrow> number" where
  "getRowOffset_loop columnHeights col stop rowOffset =
     (if col < stop
      then getRowOffset_loop columnHeights (col + 1) stop (Math_max rowOffset (columnHeights col))
      else rowOffset)"
  by pat_completeness auto
termination
  by (relation "measure (\<lambda>(columnHeights, col, stop, rowOffset). nat (stop - col))") auto

declare getRowOffset_loop.simps [simp del]

definition getRowOffset :: "heights \<Rightarrow> int \<Rightarrow> int \<Rightarrow> number" where
  "getRowOffset columnHeights columnOffset columnSpan =
     getRowOffset_loop columnHeights columnOffset (columnOffset + columnSpan) (Some 0)"

text \<open>The test of both loops of \<^verbatim>\<open>findOptimalColumnOffset\<close>:
  \<^verbatim>\<open>getRowOffset(colOffset, columnSpan) + rowSpan <= getRowOffset(0, columns)\<close>; false when
  either side is \<^verbatim>\<open>NaN\<close>.\<close>

definition fitsAt :: "heights \<Rightarrow> int \<Rightarrow> int \<Rightarrow> int \<Rightarrow> int \<Rightarrow> bool" where
  "fitsAt columnHeights columns columnSpan rowSpan colOffset =
     (case getRowOffset columnHeights colOffset columnSpan of
        None \<Rightarrow> False
      | Some r \<Rightarrow>
          (case getRowOffset columnHeights 0 columns of
             None \<Rightarrow> False
           | Some m \<Rightarrow> r + rowSpan \<le> m))"

text \<open>One \<^verbatim>\<open>for (let colOffset = start; colOffset + columnSpan <= columns; colOffset++)\<close>
  loop: the offset it returns, or \<open>None\<close> when it runs to its end.\<close>

function findOptimalColumnOffset_loop :: "heights \<Rightarrow> int \<Rightarrow> int \<Rightarrow> int \<Rightarrow> int \<Rightarrow> int option" where
  "findOptimalColumnOffset_loop columnHeights columns columnSpan rowSpan colOffset =
     (if colOffset + columnSpan \<le> columns then
        (if fitsAt columnHeights columns columnSpan rowSpan colOffset
         then Some colOffset
         else findOptimalColumnOffset_loop columnHeights columns columnSpan rowSpan (colOffset + 1))
      else None)"
  by pat_completeness auto
termination
  by (relation "measure (\<lambda>(columnHeights, columns, columnSpan, rowSpan, colOffset).
         nat (columns - columnSpan - colOffset + 1))") auto

declare findOptimalColumnOffset_loop.simps [simp del]

definition findOptimalColumnOffset :: "heights \<Rightarrow> int \<Rightarrow> int \<Rightarrow> int \<Rightarrow> int \<Rightarrow> int" where
  "findOptimalColumnOffset columnHeights columns currentColumnOffset columnSpan rowSpan =
     (case findOptimalColumnOffset_loop columnHeights columns columnSpan rowSpan currentColumnOffset of
        Some colOffset \<Rightarrow> colOffset
      | None \<Rightarrow>
          (case findOptimalColumnOffset_loop columnHeights columns columnSpan rowSpan 0 of
             Some colOffset \<Rightarrow> colOffset
           | None \<Rightarrow> (if currentColumnOffset + columnSpan \<le> columns then currentColumnOffset else 0)))"

definition getColumnOffset ::
  "Constants \<Rightarrow> store \<Rightarrow> int \<Rightarrow> heights \<Rightarrow> 'd BoardItemDefinition \<Rightarrow> int \<Rightarrow> int" where
  "getColumnOffset c st columns columnHeights item currentOffset =
     (let columnSpan = getColumnSpan c st columns item;
          rowSpan = getRowSpan c st columns item
      in case readSetting st (itemColumnOffset item) columns of
           Some v \<Rightarrow> v
         | None \<Rightarrow> findOptimalColumnOffset columnHeights columns currentOffset columnSpan rowSpan)"

text \<open>\<^verbatim>\<open>for (let col = columnOffset; col < columnOffset + columnSpan; col++)
  columnHeights[col] = rowOffset + rowSpan\<close>.\<close>

function setColumnHeights :: "heights \<Rightarrow> int \<Rightarrow> int \<Rightarrow> number \<Rightarrow> heights" where
  "setColumnHeights columnHeights col stop v =
     (if col < stop then setColumnHeights (columnHeights(col := v)) (col + 1) stop v
      else columnHeights)"
  by pat_completeness auto
termination
  by (relation "measure (\<lambda>(columnHeights, col, stop, v). nat (stop - col))") auto

declare setColumnHeights.simps [simp del]

text \<open>The state of the main loop: the variables \<^verbatim>\<open>columnOffset\<close>, \<^verbatim>\<open>layoutItems\<close> and
  \<^verbatim>\<open>columnHeights\<close> at the start of a round (\<^verbatim>\<open>rowOffset\<close> is overwritten before it is
  read in every round).\<close>

record packing =
  curColumnOffset :: int
  curLayoutItems :: "GridLayoutItem list"
  curColumnHeights :: heights

text \<open>The body of the main loop for one item.\<close>

definition placeItem :: "Constants \<Rightarrow> store \<Rightarrow> int \<Rightarrow> 'd BoardItemDefinition \<Rightarrow> packing \<Rightarrow> packing" where
  "placeItem c st columns item s =
     (let columnSpan = getColumnSpan c st columns item;
          rowSpan = getRowSpan c st columns item;
          columnOffset = getColumnOffset c st columns (curColumnHeights s) item (curColumnOffset s);
          rowOffset = getRowOffset (curColumnHeights s) columnOffset columnSpan
      in \<lparr> curColumnOffset = columnOffset + columnSpan,
           curLayoutItems = curLayoutItems s @
             [\<lparr> gId = itemId item, gX = columnOffset, gY = rowOffset,
                gWidth = columnSpan, gHeight = rowSpan \<rparr>],
           curColumnHeights =
             setColumnHeights (curColumnHeights s) columnOffset (columnOffset + columnSpan)
               (map_option (\<lambda>r. r + rowSpan) rowOffset) \<rparr>)"

fun placeItems :: "Constants \<Rightarrow> store \<Rightarrow> int \<Rightarrow> 'd BoardItemDefinition list \<Rightarrow> packing \<Rightarrow> packing" where
  "placeItems c st columns [] s = s"
| "placeItems c st columns (item # rest) s = placeItems c st columns rest (placeItem c st columns item s)"

text \<open>
  \<^verbatim>\<open>itemComparator(a, b) > 0\<close>: \<open>a\<close> is to come after \<open>b\<close>. With a \<^verbatim>\<open>NaN\<close> row,
  \<^verbatim>\<open>a.y !== b.y\<close> holds and \<^verbatim>\<open>a.y > b.y\<close> does not. The comparator never returns 0.
\<close>

definition itemComparator :: "GridLayoutItem \<Rightarrow> GridLayoutItem \<Rightarrow> int" where
  "itemComparator a b =
     (case gY a of
        None \<Rightarrow> -1
      | Some ya \<Rightarrow>
          (case gY b of
             None \<Rightarrow> -1
           | Some yb \<Rightarrow>
               (if ya \<noteq> yb then (if ya > yb then 1 else -1)
                else (if gX a > gX b then 1 else -1))))"

text \<open>
  \<^verbatim>\<open>Array.prototype.sort(itemComparator)\<close>. Where the items have numeric rows and pairwise
  different positions (\<open>ordersItems\<close>), the comparator is a strict total order on them and
  every sorting algorithm returns the one ascending arrangement, computed here by insertion.
  An array of at most one item is returned as it is.
\<close>

fun insertItem :: "GridLayoutItem \<Rightarrow> GridLayoutItem list \<Rightarrow> GridLayoutItem list" where
  "insertItem a [] = [a]"
| "insertItem a (b # bs) = (if itemComparator a b > 0 then b # insertItem a bs else a # b # bs)"

definition ordersItems :: "GridLayoutItem list \<Rightarrow> bool" where
  "ordersItems xs =
     (length xs \<le> 1 \<or>
      (list_all (\<lambda>a. gY a \<noteq> None) xs \<and> distinct (map (\<lambda>a. (gY a, gX a)) xs)))"

text \<open>
  Where the comparator does not order the items (two items at one position, or a \<^verbatim>\<open>NaN\<close>
  row among several items), ECMAScript leaves the order to the engine. The engine of
  Node.js (V8) sorts an array of fewer than 64 elements as a single run: \<^verbatim>\<open>CountAndMakeRun\<close>
  finds the run the array starts with, reversing it when it descends, and
  \<^verbatim>\<open>BinaryInsertionSort\<close> inserts the remaining elements one by one. \<^verbatim>\<open>Compare(x, y)\<close> is
  \<^verbatim>\<open>itemComparator(x, y)\<close>.

  The search of \<^verbatim>\<open>BinaryInsertionSort\<close> for the place of \<open>pivot\<close>:
  \<^verbatim>\<open>while (left < right) { mid = left + ((right - left) >> 1);
  if (Compare(pivot, workArray[mid]) < 0) right = mid; else left = mid + 1; }\<close>.
\<close>

function binarySearch :: "GridLayoutItem \<Rightarrow> GridLayoutItem list \<Rightarrow> nat \<Rightarrow> nat \<Rightarrow> nat" where
  "binarySearch pivot workArray left right =
     (if left < right then
        (let mid = left + (right - left) div 2
         in if itemComparator pivot (workArray ! mid) < 0
            then binarySearch pivot workArray left mid
            else binarySearch pivot workArray (mid + 1) right)
      else left)"
  by pat_completeness auto
termination
  by (relation "measure (\<lambda>(pivot, workArray, left, right). right - left)") auto

declare binarySearch.simps [simp del]

text \<open>One round of \<^verbatim>\<open>BinaryInsertionSort\<close>: \<^verbatim>\<open>pivot = workArray[start]\<close>, the search in
  \<^verbatim>\<open>[0, start)\<close>, the elements from \<open>left\<close> to \<open>start - 1\<close> moved up by one,
  \<^verbatim>\<open>workArray[left] = pivot\<close>.\<close>

definition insertPivot :: "GridLayoutItem list \<Rightarrow> nat \<Rightarrow> GridLayoutItem list" where
  "insertPivot workArray start =
     (let pivot = workArray ! start;
          left = binarySearch pivot workArray 0 start
      in take left workArray @ [pivot] @ take (start - left) (drop left workArray) @
         drop (start + 1) workArray)"

text \<open>\<^verbatim>\<open>for (; start < high; ++start)\<close> of \<^verbatim>\<open>BinaryInsertionSort\<close>.\<close>

function binaryInsertionSort :: "GridLayoutItem list \<Rightarrow> nat \<Rightarrow> nat \<Rightarrow> GridLayoutItem list" where
  "binaryInsertionSort workArray start high =
     (if start < high then binaryInsertionSort (insertPivot workArray start) (start + 1) high
      else workArray)"
  by pat_completeness auto
termination
  by (relation "measure (\<lambda>(workArray, start, high). high - start)") auto

declare binaryInsertionSort.simps [simp del]

text \<open>
  The loop of \<^verbatim>\<open>CountAndMakeRun\<close>: \<^verbatim>\<open>for (idx = low + 1; idx < high; ++idx) { order =
  Compare(workArray[idx], previousElement); if (isDescending) { if (order >= 0) break; }
  else { if (order < 0) break; } previousElement = workArray[idx]; ++runLength; }\<close>. The
  run starts at index 0, so \<^verbatim>\<open>runLength\<close> is \<open>idx\<close> and \<^verbatim>\<open>previousElement\<close> is
  \<^verbatim>\<open>workArray[idx - 1]\<close> throughout.
\<close>

function countRun :: "bool \<Rightarrow> GridLayoutItem list \<Rightarrow> nat \<Rightarrow> nat \<Rightarrow> nat" where
  "countRun isDescending workArray idx high =
     (if idx < high then
        (let order = itemComparator (workArray ! idx) (workArray ! (idx - 1))
         in if (if isDescending then order \<ge> 0 else order < 0) then idx
            else countRun isDescending workArray (idx + 1) high)
      else idx)"
  by pat_completeness auto
termination
  by (relation "measure (\<lambda>(isDescending, workArray, idx, high). high - idx)") auto

declare countRun.simps [simp del]

text \<open>\<^verbatim>\<open>CountAndMakeRun(0, length)\<close> on an array of at least two elements: the array with
  its first run made ascending, and the length of that run.\<close>

definition countAndMakeRun :: "GridLayoutItem list \<Rightarrow> GridLayoutItem list \<times> nat" where
  "countAndMakeRun workArray =
     (let isDescending = (itemComparator (workArray ! 1) (workArray ! 0) < 0);
          runLength = countRun isDescending workArray 2 (length workArray)
      in (if isDescending then rev (take runLength workArray) @ drop runLength workArray
          else workArray,
          runLength))"

text \<open>The sort of the engine for fewer than 64 elements; fewer than two are returned
  without a comparison.\<close>

definition sortShortArray :: "GridLayoutItem list \<Rightarrow> GridLayoutItem list" where
  "sortShortArray xs =
     (if length xs < 2 then xs
      else (case countAndMakeRun xs of
              (workArray, runLength) \<Rightarrow> binaryInsertionSort workArray runLength (length workArray)))"

text \<open>
  \<open>sortItems\<close>: the ascending arrangement where the comparator orders the items (lemma
  \<open>sortShortArray_ascending\<close>: the engine's sort computes the same), the engine's
  arrangement for fewer than 64 items that it does not order. The merge phase that the
  engine enters from 64 elements on is not modelled; for 64 or more items that the
  comparator does not order the model has no array to give.
\<close>

definition sortItems :: "GridLayoutItem list \<Rightarrow> failure + GridLayoutItem list" where
  "sortItems xs =
     (if ordersItems xs then Inr (foldr insertItem xs [])
      else if length xs < 64 then Inr (sortShortArray xs)
      else Inl UnspecifiedOrder)"

text \<open>The loop's state before the first item: \<^verbatim>\<open>columnOffset = 0\<close>, no layout items,
  \<^verbatim>\<open>Array(columns).fill(0)\<close>. \<^verbatim>\<open>Array(columns)\<close> throws a \<^verbatim>\<open>RangeError\<close> unless
  \<open>0 \<le> columns \<le> 2\<^sup>3\<^sup>2 - 1\<close>.\<close>

definition initialPacking :: "int \<Rightarrow> packing" where
  "initialPacking columns =
     \<lparr> curColumnOffset = 0, curLayoutItems = [],
       curColumnHeights = (\<lambda>col. if 0 \<le> col \<and> col < columns then Some 0 else None) \<rparr>"

definition interpretItems ::
  "Constants \<Rightarrow> store \<Rightarrow> 'd BoardItemDefinition list \<Rightarrow> int \<Rightarrow> failure + GridLayout" where
  "interpretItems c st items columns =
     (if columns < 0 \<or> 4294967295 < columns then Inl RangeError
      else
        (let s = placeItems c st columns items (initialPacking columns)
         in case sortItems (curLayoutItems s) of
              Inl e \<Rightarrow> Inl e
            | Inr sortedItems \<Rightarrow>
                Inr \<lparr> gridItems = sortedItems, gridColumns = columns,
                      gridRows = getRowOffset (curColumnHeights s) 0 columns \<rparr>))"

section \<open>\<^verbatim>\<open>transformItems\<close>\<close>

text \<open>\<^verbatim>\<open>new Map(sourceItems.map((item) => [item.id, item]))\<close>: of two source items with one
  id the later one is kept.\<close>

definition itemById :: "'d BoardItemDefinition list \<Rightarrow> ItemId \<rightharpoonup> 'd BoardItemDefinition" where
  "itemById sourceItems = fold (\<lambda>item m. m(itemId item \<mapsto> item)) sourceItems Map.empty"

definition getItem ::
  "(ItemId \<rightharpoonup> 'd BoardItemDefinition) \<Rightarrow> ItemId \<Rightarrow> failure + 'd BoardItemDefinition" where
  "getItem byId i = (case byId i of None \<Rightarrow> Inl InvariantViolation | Some item \<Rightarrow> Inr item)"

text \<open>
  \<^verbatim>\<open>sortedLayout.findIndex(({ id }, index) => sourceItems[index].id !== id)\<close>. The first
  argument is what is left of \<^verbatim>\<open>sourceItems\<close> from \<open>index\<close> on; where it has run out,
  \<^verbatim>\<open>sourceItems[index]\<close> is \<^verbatim>\<open>undefined\<close> and reading its \<^verbatim>\<open>id\<close> throws.
\<close>

fun findIndex_loop ::
  "'d BoardItemDefinition list \<Rightarrow> GridLayoutItem list \<Rightarrow> int \<Rightarrow> failure + int" where
  "findIndex_loop sourceItems [] index = Inr (- 1)"
| "findIndex_loop [] (l # ls) index = Inl TypeError"
| "findIndex_loop (s # ss) (l # ls) index =
     (if itemId s \<noteq> gId l then Inr index else findIndex_loop ss ls (index + 1))"

definition changeFromIndex ::
  "'d BoardItemDefinition list \<Rightarrow> GridLayoutItem list \<Rightarrow> failure + int" where
  "changeFromIndex sourceItems sortedLayout =
     (case findIndex_loop sourceItems sortedLayout 0 of
        Inl e \<Rightarrow> Inl e
      | Inr found \<Rightarrow> Inr (if found \<noteq> - 1 then found else int (length sortedLayout) - 1))"

text \<open>The three fields \<^verbatim>\<open>writeItemSetting\<close> can name.\<close>

datatype settingName = ColumnOffset | ColumnSpan | RowSpan

fun getSetting :: "settingName \<Rightarrow> 'd BoardItemDefinition \<Rightarrow> ref option" where
  "getSetting ColumnOffset item = itemColumnOffset item"
| "getSetting ColumnSpan item = itemColumnSpan item"
| "getSetting RowSpan item = itemRowSpan item"

fun setSetting :: "settingName \<Rightarrow> ref option \<Rightarrow> 'd BoardItemDefinition \<Rightarrow> 'd BoardItemDefinition" where
  "setSetting ColumnOffset r item = item\<lparr> itemColumnOffset := r \<rparr>"
| "setSetting ColumnSpan r item = item\<lparr> itemColumnSpan := r \<rparr>"
| "setSetting RowSpan r item = item\<lparr> itemRowSpan := r \<rparr>"

text \<open>
  \<^verbatim>\<open>setting[layout] = value\<close> on the object at \<open>r\<close>. The model keeps the entries under
  integer keys; \<^verbatim>\<open>gridLayout.rows\<close> can be \<^verbatim>\<open>NaN\<close>, and a write under the key
  \<^verbatim>\<open>NaN\<close> leaves every integer key as it was.
\<close>

definition writeSetting :: "store \<Rightarrow> ref \<Rightarrow> number \<Rightarrow> int \<Rightarrow> store" where
  "writeSetting st r layout v =
     (case layout of None \<Rightarrow> st | Some key \<Rightarrow> st[r := (st ! r)(key \<mapsto> v)])"

text \<open>
  \<^verbatim>\<open>writeItemSetting(item, name, layout, value)\<close>: a missing setting is first replaced by
  a new empty object, which is the store's next cell; then the entry is written. The item
  is the loop's own shallow copy, the setting object is whatever the copy refers to.
\<close>

definition writeItemSetting ::
  "store \<times> 'd BoardItemDefinition \<Rightarrow> settingName \<Rightarrow> number \<Rightarrow> int \<Rightarrow> store \<times> 'd BoardItemDefinition" where
  "writeItemSetting si name layout v =
     (case getSetting name (snd si) of
        None \<Rightarrow>
          (writeSetting (fst si @ [Map.empty]) (length (fst si)) layout v,
           setSetting name (Some (length (fst si))) (snd si))
      | Some r \<Rightarrow> (writeSetting (fst si) r layout v, snd si))"

text \<open>The body of the loop of \<^verbatim>\<open>transformItems\<close> once \<^verbatim>\<open>getItem(id)\<close> has returned
  \<open>source\<close>: the copy, the reset of \<^verbatim>\<open>columnOffset\<close>, the three writes.\<close>

definition transformItem ::
  "int \<Rightarrow> int \<Rightarrow> number \<Rightarrow> int \<Rightarrow> GridLayoutItem \<Rightarrow> 'd BoardItemDefinition \<Rightarrow> store
     \<Rightarrow> store \<times> 'd BoardItemDefinition" where
  "transformItem changeFrom columns rows index l source st =
     (let item = (if index \<ge> changeFrom then source\<lparr> itemColumnOffset := None \<rparr> else source);
          si1 = writeItemSetting (st, item) ColumnOffset (Some columns) (gX l);
          si2 = writeItemSetting si1 ColumnSpan (Some columns) (gWidth l);
          si3 = writeItemSetting si2 RowSpan rows (gHeight l)
      in si3)"

fun transformItems_loop ::
  "(ItemId \<rightharpoonup> 'd BoardItemDefinition) \<Rightarrow> int \<Rightarrow> int \<Rightarrow> number \<Rightarrow> GridLayoutItem list \<Rightarrow> int
     \<Rightarrow> store \<Rightarrow> 'd BoardItemDefinition list \<Rightarrow> failure + store \<times> 'd BoardItemDefinition list" where
  "transformItems_loop byId changeFrom columns rows [] index st items = Inr (st, items)"
| "transformItems_loop byId changeFrom columns rows (l # ls) index st items =
     (case getItem byId (gId l) of
        Inl e \<Rightarrow> Inl e
      | Inr source \<Rightarrow>
          (case transformItem changeFrom columns rows index l source st of
             (st', item) \<Rightarrow>
               transformItems_loop byId changeFrom columns rows ls (index + 1) st' (items @ [item])))"

text \<open>\<^verbatim>\<open>transformItems\<close> returns the new items; the store it leaves behind is returned
  with them, since the items are read through it.\<close>

definition transformItems ::
  "store \<Rightarrow> 'd BoardItemDefinition list \<Rightarrow> GridLayout
     \<Rightarrow> failure + store \<times> 'd BoardItemDefinition list" where
  "transformItems st sourceItems gridLayout =
     (case sortItems (gridItems gridLayout) of
        Inl e \<Rightarrow> Inl e
      | Inr sortedLayout \<Rightarrow>
          (case changeFromIndex sourceItems sortedLayout of
             Inl e \<Rightarrow> Inl e
           | Inr changeFrom \<Rightarrow>
               transformItems_loop (itemById sourceItems) changeFrom
                 (gridColumns gridLayout) (gridRows gridLayout) sortedLayout 0 st []))"

section \<open>\<^verbatim>\<open>createPlaceholdersLayout\<close>\<close>

text \<open>The decimal digits of a number in a template literal (integers below \<open>10\<^sup>2\<^sup>1\<close> in
  absolute value print this way).\<close>

function digits :: "nat \<Rightarrow> string" where
  "digits n = (if n < 10 then [''0123456789'' ! n] else digits (n div 10) @ [''0123456789'' ! (n mod 10)])"
  by pat_completeness auto
termination
  by (relation "measure (\<lambda>n. n)") auto

declare digits.simps [simp del]

definition numberToString :: "int \<Rightarrow> string" where
  "numberToString i = (if i < 0 then CHR ''-'' # digits (nat (- i)) else digits (nat i))"

definition placeholder :: "int \<Rightarrow> int \<Rightarrow> GridLayoutItem" where
  "placeholder row col =
     \<lparr> gId = ''awsui-placeholder-'' @ numberToString row @ ''-'' @ numberToString col,
       gX = col, gY = Some row, gWidth = 1, gHeight = 1 \<rparr>"

function placeholders_cols :: "int \<Rightarrow> int \<Rightarrow> int \<Rightarrow> GridLayoutItem list \<Rightarrow> GridLayoutItem list" where
  "placeholders_cols row col columns items =
     (if col < columns then placeholders_cols row (col + 1) columns (items @ [placeholder row col])
      else items)"
  by pat_completeness auto
termination
  by (relation "measure (\<lambda>(row, col, columns, items). nat (columns - col))") auto

declare placeholders_cols.simps [simp del]

function placeholders_rows :: "int \<Rightarrow> int \<Rightarrow> int \<Rightarrow> GridLayoutItem list \<Rightarrow> GridLayoutItem list" where
  "placeholders_rows row rows columns items =
     (if row < rows then placeholders_rows (row + 1) rows columns (placeholders_cols row 0 columns items)
      else items)"
  by pat_completeness auto
termination
  by (relation "measure (\<lambda>(row, rows, columns, items). nat (rows - row))") auto

declare placeholders_rows.simps [simp del]

definition createPlaceholdersLayout :: "int \<Rightarrow> int \<Rightarrow> GridLayout" where
  "createPlaceholdersLayout rows columns =
     \<lparr> gridItems = placeholders_rows 0 rows columns [], gridColumns = columns,
       gridRows = Some rows \<rparr>"

section \<open>The wording of the claims, and example inputs\<close>

text \<open>
  The placement rule as the specification words it (4.2 c), to be compared with
  \<open>findOptimalColumnOffset\<close>: an offset is acceptable when "the resulting row (max
  columnHeights over the span) does not exceed the current maximum row height across the
  whole grid so far"; the leftmost acceptable offset from the cursor to the right edge is
  taken, else the leftmost from column 0, else the cursor (or 0 if that would overflow).
\<close>

definition rowNotAbove :: "heights \<Rightarrow> int \<Rightarrow> int \<Rightarrow> int \<Rightarrow> bool" where
  "rowNotAbove columnHeights columns columnSpan colOffset =
     (case getRowOffset columnHeights colOffset columnSpan of
        None \<Rightarrow> False
      | Some r \<Rightarrow>
          (case getRowOffset columnHeights 0 columns of
             None \<Rightarrow> False
           | Some m \<Rightarrow> r \<le> m))"

definition claimedColumnOffset :: "heights \<Rightarrow> int \<Rightarrow> int \<Rightarrow> int \<Rightarrow> int" where
  "claimedColumnOffset columnHeights columns currentColumnOffset columnSpan =
     (case find (rowNotAbove columnHeights columns columnSpan)
             [currentColumnOffset..columns - columnSpan] of
        Some colOffset \<Rightarrow> colOffset
      | None \<Rightarrow>
          (case find (rowNotAbove columnHeights columns columnSpan) [0..columns - columnSpan] of
             Some colOffset \<Rightarrow> colOffset
           | None \<Rightarrow> (if currentColumnOffset + columnSpan \<le> columns then currentColumnOffset else 0)))"

text \<open>Example inputs. The constants are given the values 1 and 2.\<close>

definition exampleConstants :: Constants where
  "exampleConstants = \<lparr> MIN_COL_SPAN = 1, MIN_ROW_SPAN = 2 \<rparr>"

definition bareItem :: "ItemId \<Rightarrow> unit BoardItemDefinition" where
  "bareItem i =
     \<lparr> itemId = i, itemDefinition = None, itemData = (),
       itemColumnOffset = None, itemRowSpan = None, itemColumnSpan = None \<rparr>"

definition tallItem :: "unit BoardItemDefinition" where
  "tallItem =
     (bareItem ''A'')\<lparr> itemDefinition :=
        Some \<lparr> defMinRowSpan = Some 4, defMinColumnSpan = None,
               defDefaultRowSpan = None, defDefaultColumnSpan = None \<rparr> \<rparr>"

definition wideItem :: "unit BoardItemDefinition" where
  "wideItem = (bareItem ''C'')\<lparr> itemColumnSpan := Some 0 \<rparr>"

text \<open>The cell in column \<open>col\<close> and row \<open>row\<close> lies in the rectangle of a layout item.\<close>

definition covers :: "int \<Rightarrow> int \<Rightarrow> GridLayoutItem \<Rightarrow> bool" where
  "covers col row item =
     (gX item \<le> col \<and> col < gX item + gWidth item \<and>
      (case gY item of None \<Rightarrow> False | Some y \<Rightarrow> y \<le> row \<and> row < y + gHeight item))"

text \<open>
  Two layout items share a cell: their column ranges and their row ranges both intersect.
  \<open>disjointItems\<close>: no two items of a list share a cell. \<open>maxBottom\<close>: the maximum of
  \<open>y + height\<close> over the items, 0 for no items.
\<close>

definition sharesCell :: "GridLayoutItem \<Rightarrow> GridLayoutItem \<Rightarrow> bool" where
  "sharesCell a b =
     (case gY a of
        None \<Rightarrow> False
      | Some ya \<Rightarrow>
          (case gY b of
             None \<Rightarrow> False
           | Some yb \<Rightarrow>
               max (gX a) (gX b) < min (gX a + gWidth a) (gX b + gWidth b) \<and>
               max ya yb < min (ya + gHeight a) (yb + gHeight b)))"

fun disjointItems :: "GridLayoutItem list \<Rightarrow> bool" where
  "disjointItems [] = True"
| "disjointItems (a # rest) = (list_all (\<lambda>b. \<not> sharesCell a b) rest \<and> disjointItems rest)"

definition maxBottom :: "GridLayoutItem list \<Rightarrow> number" where
  "maxBottom items =
     foldr (\<lambda>item m. Math_max (map_option (\<lambda>y. y + gHeight item) (gY item)) m) items (Some 0)"

text \<open>
  The invariant of the main loop of \<^verbatim>\<open>interpretItems\<close> when no item brings a column offset
  and every span fits the grid: every placed item lies inside the grid, has a numeric row
  and ends at or above the height recorded for each of its columns; the recorded heights
  are 0 or the bottom of a placed item; no two placed items share a cell or a position.
\<close>

definition placedWithin :: "int \<Rightarrow> heights \<Rightarrow> GridLayoutItem \<Rightarrow> bool" where
  "placedWithin columns h item =
     (0 \<le> gX item \<and> gX item + gWidth item \<le> columns \<and> 1 \<le> gWidth item \<and> 1 \<le> gHeight item \<and>
      (\<exists>y. gY item = Some y \<and> 0 \<le> y \<and>
         (\<forall>col. gX item \<le> col \<and> col < gX item + gWidth item \<longrightarrow>
            (\<exists>v. h col = Some v \<and> y + gHeight item \<le> v))))"

definition packingInv :: "int \<Rightarrow> packing \<Rightarrow> bool" where
  "packingInv columns s =
     (0 \<le> curColumnOffset s \<and>
      (\<forall>col. 0 \<le> col \<and> col < columns \<longrightarrow>
         (\<exists>v. curColumnHeights s col = Some v \<and> 0 \<le> v \<and>
            (v = 0 \<or> (\<exists>item \<in> set (curLayoutItems s).
                        map_option (\<lambda>y. y + gHeight item) (gY item) = Some v)))) \<and>
      (\<forall>item \<in> set (curLayoutItems s). placedWithin columns (curColumnHeights s) item) \<and>
      disjointItems (curLayoutItems s) \<and>
      distinct (map (\<lambda>a. (gY a, gX a)) (curLayoutItems s)))"

text \<open>An item whose \<^verbatim>\<open>definition.minColumnSpan\<close> is the setting at reference 0.\<close>

definition wideMinimumItem :: "unit BoardItemDefinition" where
  "wideMinimumItem =
     (bareItem ''A'')\<lparr> itemDefinition :=
        Some \<lparr> defMinRowSpan = None, defMinColumnSpan = Some 0,
               defDefaultRowSpan = None, defDefaultColumnSpan = None \<rparr> \<rparr>"

text \<open>Two items that both ask for a minimum of 2 columns, and five items of which the
  fourth has a default span of 2 columns (the setting at reference 0).\<close>

definition wideMinimumItems :: "unit BoardItemDefinition list" where
  "wideMinimumItems = [wideMinimumItem, wideMinimumItem\<lparr> itemId := ''B'' \<rparr>]"

definition defaultWideItem :: "unit BoardItemDefinition" where
  "defaultWideItem =
     (bareItem ''D'')\<lparr> itemDefinition :=
        Some \<lparr> defMinRowSpan = None, defMinColumnSpan = None,
               defDefaultRowSpan = None, defDefaultColumnSpan = Some 0 \<rparr> \<rparr>"

definition fiveItems :: "unit BoardItemDefinition list" where
  "fiveItems = [bareItem ''B'', tallItem, bareItem ''C'', defaultWideItem, bareItem ''E'']"

text \<open>
  The setting objects an item refers to. \<open>allocated\<close>: they are objects of the store (no
  reference dangles). \<open>unshared\<close>: no object is referred to twice, neither by two items nor
  by two fields of one item. \<open>hits\<close>: the loop of \<^verbatim>\<open>transformItems\<close>, when it comes to
  \<open>source\<close>, may write the entry \<open>k\<close> of the object at \<open>a\<close>.
\<close>

definition settingRefs :: "'d BoardItemDefinition \<Rightarrow> ref list" where
  "settingRefs item =
     (case itemColumnOffset item of None \<Rightarrow> [] | Some r \<Rightarrow> [r]) @
     (case itemColumnSpan item of None \<Rightarrow> [] | Some r \<Rightarrow> [r]) @
     (case itemRowSpan item of None \<Rightarrow> [] | Some r \<Rightarrow> [r])"

definition allocated :: "store \<Rightarrow> 'd BoardItemDefinition list \<Rightarrow> bool" where
  "allocated st items = list_all (\<lambda>item. list_all (\<lambda>r. r < length st) (settingRefs item)) items"

definition unshared :: "'d BoardItemDefinition list \<Rightarrow> bool" where
  "unshared items = distinct (concat (map settingRefs items))"

definition hits :: "int \<Rightarrow> number \<Rightarrow> 'd BoardItemDefinition \<Rightarrow> ref \<Rightarrow> int \<Rightarrow> bool" where
  "hits columns rows source a k =
     ((k = columns \<and> (itemColumnOffset source = Some a \<or> itemColumnSpan source = Some a)) \<or>
      (rows = Some k \<and> itemRowSpan source = Some a))"

text \<open>An entry of a setting of the \<open>i\<close>-th returned item, read in the returned store.\<close>

definition returnedSetting ::
  "settingName \<Rightarrow> failure + store \<times> 'd BoardItemDefinition list \<Rightarrow> nat \<Rightarrow> int \<Rightarrow> failure + int option" where
  "returnedSetting name result i key =
     (case result of
        Inl e \<Rightarrow> Inl e
      | Inr (st', items') \<Rightarrow> Inr (readSetting st' (getSetting name (items' ! i)) key))"

text \<open>The row-major order of positions, \<open>(y, x)\<close> ascending, that \<^verbatim>\<open>itemComparator\<close> implements on
  items with numeric rows and different positions.\<close>

definition rowMajorLess :: "GridLayoutItem \<Rightarrow> GridLayoutItem \<Rightarrow> bool" where
  "rowMajorLess a b =
     (case gY a of
        None \<Rightarrow> False
      | Some ya \<Rightarrow>
          (case gY b of
             None \<Rightarrow> False
           | Some yb \<Rightarrow> ya < yb \<or> (ya = yb \<and> gX a < gX b)))"

text \<open>The rows are numbers and no two items have one position: the condition of
  \<open>ordersItems\<close> for any number of items.\<close>

definition positioned :: "GridLayoutItem list \<Rightarrow> bool" where
  "positioned xs = (list_all (\<lambda>a. gY a \<noteq> None) xs \<and> distinct (map (\<lambda>a. (gY a, gX a)) xs))"

text \<open>The round trip of C3: the ids of the grid of \<open>interpretItems\<close> in the grid's order, and
  the ids of the items that \<open>transformItems\<close> returns for the items and that grid.\<close>

definition roundTrip ::
  "Constants \<Rightarrow> store \<Rightarrow> 'd BoardItemDefinition list \<Rightarrow> int \<Rightarrow> failure + ItemId list \<times> ItemId list" where
  "roundTrip c st items N =
     (case interpretItems c st items N of
        Inl e \<Rightarrow> Inl e
      | Inr g \<Rightarrow>
          (case transformItems st items g of
             Inl e \<Rightarrow> Inl e
           | Inr (st', items') \<Rightarrow> Inr (map gId (gridItems g), map itemId items')))"

text \<open>Two items with a column offset of their own for 2 columns, and layouts of 4 columns
  for them: side by side in the order of the items, and stacked in the opposite order.\<close>

definition pinnedItem :: "ItemId \<Rightarrow> ref \<Rightarrow> unit BoardItemDefinition" where
  "pinnedItem i r = (bareItem i)\<lparr> itemColumnOffset := Some r \<rparr>"

definition layoutItem :: "ItemId \<Rightarrow> int \<Rightarrow> int \<Rightarrow> int \<Rightarrow> int \<Rightarrow> GridLayoutItem" where
  "layoutItem i x y w h = \<lparr> gId = i, gX = x, gY = Some y, gWidth = w, gHeight = h \<rparr>"

definition twoPinned :: "unit BoardItemDefinition list" where
  "twoPinned = [pinnedItem ''A'' 0, pinnedItem ''B'' 1]"

definition twoPinnedStore :: store where
  "twoPinnedStore = [[2 \<mapsto> 1], [2 \<mapsto> 0]]"

definition sideBySide :: GridLayout where
  "sideBySide =
     \<lparr> gridItems = [layoutItem ''A'' 0 0 2 2, layoutItem ''B'' 2 0 2 2],
       gridColumns = 4, gridRows = Some 2 \<rparr>"

definition swapped :: GridLayout where
  "swapped =
     \<lparr> gridItems = [layoutItem ''A'' 0 1 4 2, layoutItem ''B'' 0 0 4 1],
       gridColumns = 4, gridRows = Some 3 \<rparr>"

section \<open>The layout engine, from the specification\<close>

text \<open>
  The engine (\<^verbatim>\<open>LayoutEngine\<close>, imported from \<^verbatim>\<open>../engine\<close> by its test file) is not among
  the sources; only the test file is. What follows is written from sections 3, 4.1, 4.3,
  4.4 and 7 of the specification, and checked against the cases of the test file.
\<close>

text \<open>Modelled from the spec: the engine's rectangle (3, "Rectangle": item identity,
  top-left position, width, height, all integers); the engine's own type is missing.\<close>

record Rectangle =
  rectId :: ItemId
  rectX :: int
  rectY :: int
  rectWidth :: int
  rectHeight :: int

text \<open>Modelled from the spec: the engine's grid snapshot (3, "Grid": the rectangles and the
  column count; \<^verbatim>\<open>rows\<close> is derived); the engine's grid class is missing.\<close>

record Grid =
  rectangles :: "Rectangle list"
  columnCount :: int

text \<open>Modelled from the spec: the three causes of \<^verbatim>\<open>InvalidGrid\<close> and the error taxonomy
  of section 7; the engine's error values are missing (the tests show their messages).\<close>

datatype invalidGrid = outOfBounds | overlap | invalidSize

datatype engineError =
  InvalidGrid invalidGrid | ItemNotFound | OutOfBounds | InvalidSize | InvalidResize

text \<open>Modelled from the spec: the boundary check of the missing grid constructor (3,
  invariant 2: "every rectangle lies within \<open>[0, columns) \<times> [0, rows]\<close>, never negative,
  never exceeding columns").\<close>

definition outsideBoundaries :: "int \<Rightarrow> Rectangle \<Rightarrow> bool" where
  "outsideBoundaries columns r = (rectX r < 0 \<or> rectY r < 0 \<or> columns < rectX r + rectWidth r)"

text \<open>Modelled from the spec: a cell of a rectangle (3: a rectangle covers the cells from
  its top-left position over its width and height); the engine's cell bookkeeping is
  missing.\<close>

definition inRectangle :: "int \<Rightarrow> int \<Rightarrow> Rectangle \<Rightarrow> bool" where
  "inRectangle col row r =
     (rectX r \<le> col \<and> col < rectX r + rectWidth r \<and> rectY r \<le> row \<and> row < rectY r + rectHeight r)"

text \<open>Modelled from the spec: the overlap check of the missing grid constructor between two
  rectangles (3, invariant 1: "no two rectangles overlap (share a cell)").\<close>

definition overlapping :: "Rectangle \<Rightarrow> Rectangle \<Rightarrow> bool" where
  "overlapping a b =
     (max (rectX a) (rectX b) < min (rectX a + rectWidth a) (rectX b + rectWidth b) \<and>
      max (rectY a) (rectY b) < min (rectY a + rectHeight a) (rectY b + rectHeight b))"

text \<open>Modelled from the spec: the overlap check of the missing grid constructor over all
  pairs of rectangles.\<close>

fun anyOverlap :: "Rectangle list \<Rightarrow> bool" where
  "anyOverlap [] = False"
| "anyOverlap (a # rest) = (list_ex (overlapping a) rest \<or> anyOverlap rest)"

text \<open>Modelled from the spec: the size check of the missing grid constructor (3, invariant
  3: "every rectangle has positive width and height").\<close>

definition nonPositiveSize :: "Rectangle \<Rightarrow> bool" where
  "nonPositiveSize r = (rectWidth r \<le> 0 \<or> rectHeight r \<le> 0)"

text \<open>Modelled from the spec: the missing grid constructor (4.1: "\<^verbatim>\<open>construct(rectangles,
  columns)\<close> fails with \<^verbatim>\<open>InvalidGrid\<close> distinguishing three causes [...] checked in that
  priority order (boundary check first, overlap second, size third) and reporting the first
  violation found"); a grid is returned only when no check fails.\<close>

definition construct :: "Rectangle list \<Rightarrow> int \<Rightarrow> engineError + Grid" where
  "construct rs columns =
     (if list_ex (outsideBoundaries columns) rs then Inl (InvalidGrid outOfBounds)
      else if anyOverlap rs then Inl (InvalidGrid overlap)
      else if list_ex nonPositiveSize rs then Inl (InvalidGrid invalidSize)
      else Inr \<lparr> rectangles = rs, columnCount = columns \<rparr>)"

text \<open>Modelled from the spec: grid positions and the entries of a layout shift (3,
  "Position" and "LayoutShift"); the engine's types are missing.\<close>

type_synonym Position = "int \<times> int"

datatype operation = MOVE ItemId int int int int | RESIZE ItemId int int int int

type_synonym LayoutShift = "operation list"

text \<open>Modelled from the spec: the gap filling of the missing path normalizer (4.3: "gaps
  between consecutive path positions are filled with intermediate unit steps along a
  straight or L-shaped route"): the unit steps from \<open>p\<close> to \<open>q\<close>, columns first (the order
  the test "normalizes move path when it has missing steps" expects).\<close>

function fillGap :: "Position \<Rightarrow> Position \<Rightarrow> Position list" where
  "fillGap p q =
     (if fst p < fst q then (fst p + 1, snd p) # fillGap (fst p + 1, snd p) q
      else if fst q < fst p then (fst p - 1, snd p) # fillGap (fst p - 1, snd p) q
      else if snd p < snd q then (fst p, snd p + 1) # fillGap (fst p, snd p + 1) q
      else if snd q < snd p then (fst p, snd p - 1) # fillGap (fst p, snd p - 1) q
      else [])"
  by pat_completeness auto
termination
  by (relation "measure (\<lambda>(p, q). nat (\<bar>fst q - fst p\<bar> + \<bar>snd q - snd p\<bar>))") auto

declare fillGap.simps [simp del]

text \<open>Modelled from the spec: one position taken into the accepted prefix by the missing
  path normalizer (4.3: "if the path revisits any previously-visited position \<open>P\<close>, all
  steps after that revisit are discarded and replaced by continuing forward from \<open>P\<close>'s
  index in the already-accepted prefix"). The prefix starts with the start position.\<close>

definition accept :: "Position list \<Rightarrow> Position \<Rightarrow> Position list" where
  "accept visited p =
     (if p \<in> set visited then takeWhile (\<lambda>q. q \<noteq> p) visited @ [p] else visited @ [p])"

text \<open>Modelled from the spec: the pass of the missing path normalizer over the waypoints;
  a waypoint equal to the last accepted position adds nothing (4.3: "consecutive duplicate
  positions collapse to one").\<close>

fun normalize :: "Position list \<Rightarrow> Position list \<Rightarrow> Position list" where
  "normalize visited [] = visited"
| "normalize visited (w # ws) = normalize (foldl accept visited (fillGap (last visited) w)) ws"

text \<open>Modelled from the spec: the missing path normalizer (4.3): the unit steps after the
  start position \<open>origin\<close>.\<close>

definition normalizePath :: "Position \<Rightarrow> Position list \<Rightarrow> Position list" where
  "normalizePath origin path = tl (normalize [origin] path)"

text \<open>Modelled from the spec: the lookup of an item in the missing grid (4.1,
  \<^verbatim>\<open>rectOf(itemId)\<close>).\<close>

definition findRectangle :: "Grid \<Rightarrow> ItemId \<Rightarrow> Rectangle option" where
  "findRectangle g i = find (\<lambda>r. rectId r = i) (rectangles g)"

text \<open>Modelled from the spec: the replay of the normalized steps by the missing engine
  (4.4: each step is attempted in turn; a rejected step and all later ones are dropped,
  the earlier effects are kept). The displacement of one step, which the specification
  describes in prose only, is the parameter \<open>step\<close>: it returns the new grid and shift,
  or \<open>None\<close> when the step is rejected.\<close>

fun replay ::
  "(Grid \<times> LayoutShift \<Rightarrow> ItemId \<Rightarrow> Position \<Rightarrow> (Grid \<times> LayoutShift) option) \<Rightarrow> ItemId
     \<Rightarrow> Position list \<Rightarrow> Grid \<times> LayoutShift \<Rightarrow> Grid \<times> LayoutShift" where
  "replay step i [] s = s"
| "replay step i (p # ps) s = (case step s i p of None \<Rightarrow> s | Some s' \<Rightarrow> replay step i ps s')"

text \<open>Modelled from the spec: \<^verbatim>\<open>move\<close> of the missing engine (4.4: "fails with
  \<^verbatim>\<open>ItemNotFound\<close> if \<^verbatim>\<open>itemId\<close> absent; fails with \<^verbatim>\<open>OutOfBounds\<close> if any normalized step
  target lies outside the grid (checked before any mutation)"; then the steps are
  replayed). The path is normalized from the item's position.\<close>

definition move ::
  "(Grid \<times> LayoutShift \<Rightarrow> ItemId \<Rightarrow> Position \<Rightarrow> (Grid \<times> LayoutShift) option) \<Rightarrow> Grid \<Rightarrow> ItemId
     \<Rightarrow> Position list \<Rightarrow> engineError + Grid \<times> LayoutShift" where
  "move relocate g i path =
     (case findRectangle g i of
        None \<Rightarrow> Inl ItemNotFound
      | Some r \<Rightarrow>
          (let steps = normalizePath (rectX r, rectY r) path
           in if list_ex (\<lambda>p. outsideBoundaries (columnCount g) (r\<lparr> rectX := fst p, rectY := snd p \<rparr>)) steps
              then Inl OutOfBounds
              else Inr (replay relocate i steps (g, []))))"

text \<open>Modelled from the spec: \<^verbatim>\<open>resize\<close> of the missing engine (4.4: "fails with
  \<^verbatim>\<open>ItemNotFound\<close>; fails with \<^verbatim>\<open>OutOfBounds\<close> if the target size+position would leave
  the grid; fails with \<^verbatim>\<open>InvalidResize\<close> if any step would shrink an item's width or
  height to zero"). A path position is where the dragged bottom-right corner goes, as in
  the tests, so a step \<open>p\<close> asks for the width \<open>fst p - x\<close> and the height \<open>snd p - y\<close>.
  The specification does not rank \<^verbatim>\<open>InvalidResize\<close> against \<^verbatim>\<open>OutOfBounds\<close>; the size
  is checked first here, since section 8 states the \<^verbatim>\<open>InvalidResize\<close> failure without a
  condition on the bounds.\<close>

definition resize ::
  "(Grid \<times> LayoutShift \<Rightarrow> ItemId \<Rightarrow> Position \<Rightarrow> (Grid \<times> LayoutShift) option) \<Rightarrow> Grid \<Rightarrow> ItemId
     \<Rightarrow> Position list \<Rightarrow> engineError + Grid \<times> LayoutShift" where
  "resize regrow g i path =
     (case findRectangle g i of
        None \<Rightarrow> Inl ItemNotFound
      | Some r \<Rightarrow>
          (let steps = normalizePath (rectX r + rectWidth r, rectY r + rectHeight r) path
           in if list_ex (\<lambda>p. fst p - rectX r \<le> 0 \<or> snd p - rectY r \<le> 0) steps
              then Inl InvalidResize
              else if list_ex (\<lambda>p. outsideBoundaries (columnCount g)
                         (r\<lparr> rectWidth := fst p - rectX r, rectHeight := snd p - rectY r \<rparr>)) steps
              then Inl OutOfBounds
              else Inr (replay regrow i steps (g, []))))"

text \<open>Modelled from the spec: the snapshot the missing engine holds after an operation
  (3, "Lifecycle", and 7: an operation returns a new snapshot, and "a rejected operation
  leaves the engine's committed snapshot untouched").\<close>

definition snapshotAfter :: "Grid \<Rightarrow> engineError + Grid \<times> LayoutShift \<Rightarrow> Grid" where
  "snapshotAfter g result = (case result of Inl e \<Rightarrow> g | Inr (g', shift) \<Rightarrow> g')"

text \<open>The accepted prefix of the normalizer starts at \<open>origin\<close> and has no position twice.\<close>

definition visitedFrom :: "Position \<Rightarrow> Position list \<Rightarrow> bool" where
  "visitedFrom origin visited = (visited \<noteq> [] \<and> hd visited = origin \<and> distinct visited)"

text \<open>The grids of the engine's tests: the 3 by 3 matrix with the items A to G, a board
  with the single item A, and the 2 by 2 item A.\<close>

definition cell :: "ItemId \<Rightarrow> int \<Rightarrow> int \<Rightarrow> Rectangle" where
  "cell i x y = \<lparr> rectId = i, rectX = x, rectY = y, rectWidth = 1, rectHeight = 1 \<rparr>"

definition testMatrix :: "Rectangle list" where
  "testMatrix =
     [cell ''A'' 0 0, cell ''B'' 1 0, cell ''C'' 2 0, cell ''D'' 0 1, cell ''F'' 2 1,
      cell ''G'' 0 2, (cell ''E'' 1 2)\<lparr> rectWidth := 2 \<rparr>]"

definition emptyBoard :: Grid where
  "emptyBoard = \<lparr> rectangles = [cell ''A'' 0 0], columnCount = 3 \<rparr>"

definition fullBoard :: Grid where
  "fullBoard = \<lparr> rectangles = testMatrix, columnCount = 3 \<rparr>"

definition squareBoard :: Grid where
  "squareBoard =
     \<lparr> rectangles = [\<lparr> rectId = ''A'', rectX = 0, rectY = 0, rectWidth = 2, rectHeight = 2 \<rparr>],
       columnCount = 2 \<rparr>"

section \<open>Column span (C2)\<close>



section \<open>Column offset (C1)\<close>

lemma findOptimalColumnOffset_loop_Some:
  "findOptimalColumnOffset_loop h columns columnSpan rowSpan start = Some r \<Longrightarrow>
     start \<le> r \<and> r + columnSpan \<le> columns \<and> fitsAt h columns columnSpan rowSpan r \<and>
     (\<forall>p. start \<le> p \<and> p < r \<longrightarrow> \<not> fitsAt h columns columnSpan rowSpan p)"
proof (induction h columns columnSpan rowSpan start rule: findOptimalColumnOffset_loop.induct)
  case (1 h columns columnSpan rowSpan colOffset)
  note loop = findOptimalColumnOffset_loop.simps [of h columns columnSpan rowSpan colOffset]
  show ?case
  proof (cases "colOffset + columnSpan \<le> columns")
    case False
    with "1.prems" show ?thesis by (simp add: loop)
  next
    case inside: True
    show ?thesis
    proof (cases "fitsAt h columns columnSpan rowSpan colOffset")
      case True
      with inside "1.prems" have "r = colOffset" by (simp add: loop)
      with inside True show ?thesis by auto
    next
      case False
      with inside "1.prems"
      have "findOptimalColumnOffset_loop h columns columnSpan rowSpan (colOffset + 1) = Some r"
        by (simp add: loop)
      from "1.IH" [OF inside False this]
      have ih: "colOffset + 1 \<le> r" "r + columnSpan \<le> columns" "fitsAt h columns columnSpan rowSpan r"
        "\<forall>p. colOffset + 1 \<le> p \<and> p < r \<longrightarrow> \<not> fitsAt h columns columnSpan rowSpan p"
        by auto
      have "\<not> fitsAt h columns columnSpan rowSpan p" if "colOffset \<le> p" "p < r" for p
      proof (cases "p = colOffset")
        case True with False show ?thesis by simp
      next
        case False
        with that have "colOffset + 1 \<le> p" by simp
        with ih(4) that show ?thesis by blast
      qed
      with ih show ?thesis by auto
    qed
  qed
qed

lemma findOptimalColumnOffset_loop_None:
  "findOptimalColumnOffset_loop h columns columnSpan rowSpan start = None \<Longrightarrow>
     start \<le> p \<Longrightarrow> p + columnSpan \<le> columns \<Longrightarrow> \<not> fitsAt h columns columnSpan rowSpan p"
proof (induction h columns columnSpan rowSpan start rule: findOptimalColumnOffset_loop.induct)
  case (1 h columns columnSpan rowSpan colOffset)
  note loop = findOptimalColumnOffset_loop.simps [of h columns columnSpan rowSpan colOffset]
  from "1.prems" have inside: "colOffset + columnSpan \<le> columns" by simp
  with "1.prems"(1) have nofit: "\<not> fitsAt h columns columnSpan rowSpan colOffset"
    by (auto simp: loop split: if_splits)
  with inside "1.prems"(1)
  have rest: "findOptimalColumnOffset_loop h columns columnSpan rowSpan (colOffset + 1) = None"
    by (simp add: loop)
  show ?case
  proof (cases "p = colOffset")
    case True with nofit show ?thesis by simp
  next
    case False
    with "1.prems" have "colOffset + 1 \<le> p" by simp
    from "1.IH" [OF inside nofit rest this "1.prems"(3)] show ?thesis .
  qed
qed

text \<open>What \<open>findOptimalColumnOffset\<close> returns, in the three cases of its code.\<close>

lemma findOptimalColumnOffset_cases:
  fixes h :: heights and columns columnSpan rowSpan cur :: int
  defines "fits \<equiv> fitsAt h columns columnSpan rowSpan"
  defines "r \<equiv> findOptimalColumnOffset h columns cur columnSpan rowSpan"
  shows "if \<exists>p. cur \<le> p \<and> p + columnSpan \<le> columns \<and> fits p
         then cur \<le> r \<and> r + columnSpan \<le> columns \<and> fits r \<and> (\<forall>p. cur \<le> p \<and> p < r \<longrightarrow> \<not> fits p)
         else if \<exists>p. 0 \<le> p \<and> p + columnSpan \<le> columns \<and> fits p
         then 0 \<le> r \<and> r + columnSpan \<le> columns \<and> fits r \<and> (\<forall>p. 0 \<le> p \<and> p < r \<longrightarrow> \<not> fits p)
         else r = (if cur + columnSpan \<le> columns then cur else 0)"
proof (cases "findOptimalColumnOffset_loop h columns columnSpan rowSpan cur")
  case (Some a)
  then have "r = a" by (simp add: r_def findOptimalColumnOffset_def)
  with findOptimalColumnOffset_loop_Some [OF Some] show ?thesis
    unfolding fits_def by auto
next
  case first: None
  then have no1: "\<not> (\<exists>p. cur \<le> p \<and> p + columnSpan \<le> columns \<and> fits p)"
    unfolding fits_def using findOptimalColumnOffset_loop_None by blast
  show ?thesis
  proof (cases "findOptimalColumnOffset_loop h columns columnSpan rowSpan 0")
    case (Some a)
    with first have "r = a" by (simp add: r_def findOptimalColumnOffset_def)
    with findOptimalColumnOffset_loop_Some [OF Some] no1 show ?thesis
      unfolding fits_def by auto
  next
    case None
    then have no2: "\<not> (\<exists>p. 0 \<le> p \<and> p + columnSpan \<le> columns \<and> fits p)"
      unfolding fits_def using findOptimalColumnOffset_loop_None by blast
    from first None have "r = (if cur + columnSpan \<le> columns then cur else 0)"
      by (simp add: r_def findOptimalColumnOffset_def)
    then show ?thesis by (simp only: no1 no2 if_False)
  qed
qed

lemma placeItem_last:
  "last (curLayoutItems (placeItem c st columns item s)) =
     \<lparr> gId = itemId item,
       gX = getColumnOffset c st columns (curColumnHeights s) item (curColumnOffset s),
       gY = getRowOffset (curColumnHeights s)
              (getColumnOffset c st columns (curColumnHeights s) item (curColumnOffset s))
              (getColumnSpan c st columns item),
       gWidth = getColumnSpan c st columns item,
       gHeight = getRowSpan c st columns item \<rparr>"
  by (simp add: placeItem_def Let_def)

text \<open>
  C1, as stated, fails. Three items in 3 columns: A of height 4 and B of height 2 take
  columns 0 and 1, and C, two columns wide and 2 high, comes with the cursor at column 2.
  The code puts C at column 1, row 2: at column 0 it would end in row 6, below the grid's
  4 rows. By the claim's rule C belongs at column 0, where "the resulting row" 4 does not
  exceed the maximum row height 4.
\<close>

theorem interpretItems_not_claimedColumnOffset:
  "readSetting [[3 \<mapsto> 2]] (itemColumnOffset wideItem) 3 = None \<and>
   interpretItems exampleConstants [[3 \<mapsto> 2]] [tallItem, bareItem ''B'', wideItem] 3 =
     Inr \<lparr> gridItems =
             [\<lparr> gId = ''A'', gX = 0, gY = Some 0, gWidth = 1, gHeight = 4 \<rparr>,
              \<lparr> gId = ''B'', gX = 1, gY = Some 0, gWidth = 1, gHeight = 2 \<rparr>,
              \<lparr> gId = ''C'', gX = 1, gY = Some 2, gWidth = 2, gHeight = 2 \<rparr>],
           gridColumns = 3, gridRows = Some 4 \<rparr> \<and>
   claimedColumnOffset
     (curColumnHeights
        (placeItems exampleConstants [[3 \<mapsto> 2]] 3 [tallItem, bareItem ''B''] (initialPacking 3)))
     3
     (curColumnOffset
        (placeItems exampleConstants [[3 \<mapsto> 2]] 3 [tallItem, bareItem ''B''] (initialPacking 3)))
     (getColumnSpan exampleConstants [[3 \<mapsto> 2]] 3 wideItem) = 0"
  by code_simp

text \<open>
  C1, amended: an offset fits when the row it gives (the maximum of \<^verbatim>\<open>columnHeights\<close> over
  the spanned columns) plus the item's row span does not exceed the current maximum row
  height of the whole grid (\<open>fitsAt\<close>). An item without a column-offset hint for the column
  count is placed by the loop body at the leftmost fitting offset from the cursor to the
  right edge; if there is none, at the leftmost fitting offset from column 0; if there is
  none either, at the cursor, or at column 0 when the item would overflow the right edge
  there. Its row is the maximum of \<^verbatim>\<open>columnHeights\<close> over its columns.
\<close>

theorem placeItem_columnOffset:
  fixes c :: Constants and st :: store and columns :: int and item :: "'d BoardItemDefinition"
    and s :: packing
  defines "columnSpan \<equiv> getColumnSpan c st columns item"
  defines "fits \<equiv> fitsAt (curColumnHeights s) columns (getColumnSpan c st columns item)
                     (getRowSpan c st columns item)"
  defines "placed \<equiv> last (curLayoutItems (placeItem c st columns item s))"
  assumes nohint: "readSetting st (itemColumnOffset item) columns = None"
  shows "gY placed = getRowOffset (curColumnHeights s) (gX placed) columnSpan \<and>
         (if \<exists>p. curColumnOffset s \<le> p \<and> p + columnSpan \<le> columns \<and> fits p
          then curColumnOffset s \<le> gX placed \<and> gX placed + columnSpan \<le> columns \<and> fits (gX placed) \<and>
               (\<forall>p. curColumnOffset s \<le> p \<and> p < gX placed \<longrightarrow> \<not> fits p)
          else if \<exists>p. 0 \<le> p \<and> p + columnSpan \<le> columns \<and> fits p
          then 0 \<le> gX placed \<and> gX placed + columnSpan \<le> columns \<and> fits (gX placed) \<and>
               (\<forall>p. 0 \<le> p \<and> p < gX placed \<longrightarrow> \<not> fits p)
          else gX placed = (if curColumnOffset s + columnSpan \<le> columns then curColumnOffset s else 0))"
proof -
  have x: "gX placed =
      findOptimalColumnOffset (curColumnHeights s) columns (curColumnOffset s)
        (getColumnSpan c st columns item) (getRowSpan c st columns item)"
    using nohint by (simp add: placed_def placeItem_last getColumnOffset_def Let_def)
  have y: "gY placed = getRowOffset (curColumnHeights s) (gX placed) columnSpan"
    by (simp add: placed_def placeItem_last columnSpan_def)
  note cases = findOptimalColumnOffset_cases
    [of "curColumnOffset s" "getColumnSpan c st columns item" columns "curColumnHeights s"
        "getRowSpan c st columns item"]
  show ?thesis
    apply (rule conjI)
     apply (rule y)
    apply (unfold x fits_def columnSpan_def)
    apply (rule cases)
    done
qed

theorem placeItem_columnOffset_witness:
  "readSetting [[3 \<mapsto> 2]] (itemColumnOffset wideItem) 3 = None \<and>
   gX (last (curLayoutItems (placeItem exampleConstants [[3 \<mapsto> 2]] 3 wideItem
        (placeItems exampleConstants [[3 \<mapsto> 2]] 3 [tallItem, bareItem ''B''] (initialPacking 3))))) = 1 \<and>
   gY (last (curLayoutItems (placeItem exampleConstants [[3 \<mapsto> 2]] 3 wideItem
        (placeItems exampleConstants [[3 \<mapsto> 2]] 3 [tallItem, bareItem ''B''] (initialPacking 3))))) =
     getRowOffset
       (curColumnHeights
          (placeItems exampleConstants [[3 \<mapsto> 2]] 3 [tallItem, bareItem ''B''] (initialPacking 3)))
       1 (getColumnSpan exampleConstants [[3 \<mapsto> 2]] 3 wideItem)"
proof -
  have h: "readSetting [[3 \<mapsto> 2]] (itemColumnOffset wideItem) 3 = None"
    by (simp add: wideItem_def bareItem_def readSetting_def)
  have v: "gX (last (curLayoutItems (placeItem exampleConstants [[3 \<mapsto> 2]] 3 wideItem
        (placeItems exampleConstants [[3 \<mapsto> 2]] 3 [tallItem, bareItem ''B''] (initialPacking 3))))) = 1"
    by code_simp
  from placeItem_columnOffset [OF h, of exampleConstants
      "placeItems exampleConstants [[3 \<mapsto> 2]] 3 [tallItem, bareItem ''B''] (initialPacking 3)"]
  have "gY (last (curLayoutItems (placeItem exampleConstants [[3 \<mapsto> 2]] 3 wideItem
        (placeItems exampleConstants [[3 \<mapsto> 2]] 3 [tallItem, bareItem ''B''] (initialPacking 3))))) =
     getRowOffset
       (curColumnHeights
          (placeItems exampleConstants [[3 \<mapsto> 2]] 3 [tallItem, bareItem ''B''] (initialPacking 3)))
       (gX (last (curLayoutItems (placeItem exampleConstants [[3 \<mapsto> 2]] 3 wideItem
        (placeItems exampleConstants [[3 \<mapsto> 2]] 3 [tallItem, bareItem ''B''] (initialPacking 3))))))
       (getColumnSpan exampleConstants [[3 \<mapsto> 2]] 3 wideItem)"
    by (rule conjunct1)
  with h v show ?thesis by (simp only: simp_thms)
qed

section \<open>Placeholders (C10)\<close>

lemma placeholders_cols_eq:
  "placeholders_cols row col columns items = items @ map (placeholder row) [col..columns - 1]"
proof (induction row col columns items rule: placeholders_cols.induct)
  case (1 row col columns items)
  show ?case
  proof (cases "col < columns")
    case True
    then have "[col..columns - 1] = col # [col + 1..columns - 1]"
      by (simp add: upto_rec1)
    with True "1.IH" show ?thesis
      by (subst placeholders_cols.simps) simp
  next
    case False
    then show ?thesis by (subst placeholders_cols.simps) simp
  qed
qed

lemma placeholders_rows_eq:
  "placeholders_rows row rows columns items =
     items @ concat (map (\<lambda>r. map (placeholder r) [0..columns - 1]) [row..rows - 1])"
proof (induction row rows columns items rule: placeholders_rows.induct)
  case (1 row rows columns items)
  show ?case
  proof (cases "row < rows")
    case True
    then have "[row..rows - 1] = row # [row + 1..rows - 1]"
      by (simp add: upto_rec1)
    with True "1.IH" show ?thesis
      by (subst placeholders_rows.simps) (simp add: placeholders_cols_eq)
  next
    case False
    then show ?thesis by (subst placeholders_rows.simps) simp
  qed
qed

lemma length_filter_upto_eq:
  "i \<le> x \<Longrightarrow> x \<le> j \<Longrightarrow> length (filter (\<lambda>c. c = x) [i..j]) = 1"
proof -
  assume "i \<le> x" "x \<le> j"
  then have "{c. c = x} \<inter> set [i..j] = {x}" by auto
  then show ?thesis by (simp add: distinct_length_filter)
qed

lemma length_filter_concat:
  "length (filter P (concat xss)) = sum_list (map (\<lambda>xs. length (filter P xs)) xss)"
  by (induction xss) auto

lemma sum_list_indicator:
  "sum_list (map (\<lambda>x. if Q x then c else (0::nat)) xs) = c * length (filter Q xs)"
  by (induction xs) auto

lemma covers_placeholder: "covers col row (placeholder r k) = (k = col \<and> r = row)"
  by (auto simp: covers_def placeholder_def)

lemma placeholders_row_count:
  assumes "0 \<le> col" "col < columns"
  shows "length (filter (\<lambda>k. k = col \<and> r = row) [0..columns - 1]) = (if r = row then 1 else 0)"
  using assms length_filter_upto_eq [of 0 col "columns - 1"] by auto

text \<open>
  C10: for non-negative \<open>rows\<close> and \<open>columns\<close>, \<open>createPlaceholdersLayout\<close> returns
  \<open>rows * columns\<close> items, each of width 1 and height 1; every cell \<open>(col, row)\<close> with
  \<open>0 \<le> col < columns\<close> and \<open>0 \<le> row < rows\<close> is covered by exactly one item; and the
  layout's \<^verbatim>\<open>columns\<close> and \<^verbatim>\<open>rows\<close> are the arguments.
\<close>

theorem createPlaceholdersLayout_cells:
  assumes "0 \<le> rows" and "0 \<le> columns"
  shows "length (gridItems (createPlaceholdersLayout rows columns)) = nat (rows * columns) \<and>
         (\<forall>item \<in> set (gridItems (createPlaceholdersLayout rows columns)).
            gWidth item = 1 \<and> gHeight item = 1) \<and>
         (\<forall>col row. 0 \<le> col \<and> col < columns \<and> 0 \<le> row \<and> row < rows \<longrightarrow>
            length (filter (covers col row) (gridItems (createPlaceholdersLayout rows columns))) = 1) \<and>
         gridColumns (createPlaceholdersLayout rows columns) = columns \<and>
         gridRows (createPlaceholdersLayout rows columns) = Some rows"
proof -
  let ?items = "gridItems (createPlaceholdersLayout rows columns)"
  have items: "?items = concat (map (\<lambda>r. map (placeholder r) [0..columns - 1]) [0..rows - 1])"
    by (simp add: createPlaceholdersLayout_def placeholders_rows_eq)
  have "length ?items = sum_list (map (\<lambda>r. nat columns) [0..rows - 1])"
    using assms by (simp add: items length_concat o_def)
  also have "\<dots> = nat rows * nat columns"
    using assms by (simp add: sum_list_triv)
  also have "\<dots> = nat (rows * columns)"
    using assms by (simp add: nat_mult_distrib)
  finally have len: "length ?items = nat (rows * columns)" .
  have unit: "\<forall>item \<in> set ?items. gWidth item = 1 \<and> gHeight item = 1"
    by (auto simp: items placeholder_def)
  have cells: "length (filter (covers col row) ?items) = 1"
    if "0 \<le> col" "col < columns" "0 \<le> row" "row < rows" for col row
  proof -
    have "length (filter (covers col row) ?items) =
            sum_list (map (\<lambda>r. if r = row then 1 else 0) [0..rows - 1])"
      using that(1,2)
      by (simp add: items length_filter_concat o_def filter_map covers_placeholder
          placeholders_row_count)
    also have "\<dots> = length (filter (\<lambda>r. r = row) [0..rows - 1])"
      using sum_list_indicator [of "\<lambda>r. r = row" 1 "[0..rows - 1]"] by simp
    also have "\<dots> = 1"
      using that(3,4) by (simp add: length_filter_upto_eq)
    finally show ?thesis .
  qed
  from len unit cells show ?thesis
    by (simp add: createPlaceholdersLayout_def)
qed

theorem createPlaceholdersLayout_cells_witness:
  "(0::int) \<le> 2 \<and> (0::int) \<le> 3 \<and>
   length (gridItems (createPlaceholdersLayout 2 3)) = 6 \<and>
   length (filter (covers 2 1) (gridItems (createPlaceholdersLayout 2 3))) = 1 \<and>
   gridColumns (createPlaceholdersLayout 2 3) = 3 \<and>
   gridRows (createPlaceholdersLayout 2 3) = Some 2"
  using createPlaceholdersLayout_cells [of 2 3] by simp

section \<open>The packing loop keeps the grid invariants (C9)\<close>

lemma sharesCell_iff_covers:
  "sharesCell a b = (\<exists>col row. covers col row a \<and> covers col row b)"
proof
  assume "sharesCell a b"
  then obtain ya yb where y: "gY a = Some ya" "gY b = Some yb"
    and x: "max (gX a) (gX b) < min (gX a + gWidth a) (gX b + gWidth b)"
    and r: "max ya yb < min (ya + gHeight a) (yb + gHeight b)"
    by (auto simp: sharesCell_def split: option.splits)
  have "covers (max (gX a) (gX b)) (max ya yb) a \<and> covers (max (gX a) (gX b)) (max ya yb) b"
    using x r by (simp add: covers_def y)
  then show "\<exists>col row. covers col row a \<and> covers col row b" by blast
next
  assume "\<exists>col row. covers col row a \<and> covers col row b"
  then show "sharesCell a b"
    by (auto simp: covers_def sharesCell_def split: option.splits)
qed

lemma sharesCell_sym: "sharesCell a b = sharesCell b a"
  by (auto simp: sharesCell_iff_covers)

lemma disjointItems_snoc:
  "disjointItems (xs @ [a]) = (disjointItems xs \<and> list_all (\<lambda>b. \<not> sharesCell b a) xs)"
  by (induction xs) (auto simp: list_all_iff)

lemma setColumnHeights_apply:
  "setColumnHeights h a b v col = (if a \<le> col \<and> col < b then v else h col)"
proof (induction h a b v rule: setColumnHeights.induct)
  case (1 h a b v)
  show ?case
  proof (cases "a < b")
    case True
    have "setColumnHeights h a b v col = setColumnHeights (h(a := v)) (a + 1) b v col"
      using True by (subst setColumnHeights.simps) simp
    also have "\<dots> = (if a + 1 \<le> col \<and> col < b then v else (h(a := v)) col)"
      by (rule "1.IH" [OF True])
    also have "\<dots> = (if a \<le> col \<and> col < b then v else h col)"
      using True by auto
    finally show ?thesis .
  next
    case False
    then show ?thesis by (subst setColumnHeights.simps) auto
  qed
qed

lemma getRowOffset_loop_Some:
  assumes "\<forall>col. a \<le> col \<and> col < b \<longrightarrow> (\<exists>v. h col = Some v)"
  shows "\<exists>y. getRowOffset_loop h a b (Some m) = Some y \<and> m \<le> y \<and>
           (\<forall>col. a \<le> col \<and> col < b \<longrightarrow> (\<exists>v. h col = Some v \<and> v \<le> y)) \<and>
           (y = m \<or> (\<exists>col. a \<le> col \<and> col < b \<and> h col = Some y))"
  using assms
proof (induction h a b "Some m" arbitrary: m rule: getRowOffset_loop.induct)
  case (1 h a b)
  show ?case
  proof (cases "a < b")
    case False
    then show ?thesis by (subst getRowOffset_loop.simps) auto
  next
    case True
    with "1.prems" obtain v where v: "h a = Some v" by force
    have step: "Math_max (Some m) (h a) = Some (max m v)"
      by (simp add: Math_max_def v)
    have rest: "\<forall>col. a + 1 \<le> col \<and> col < b \<longrightarrow> (\<exists>v. h col = Some v)"
      using "1.prems" by auto
    from "1.hyps" [OF True step rest]
    obtain y where y: "getRowOffset_loop h (a + 1) b (Some (max m v)) = Some y" "max m v \<le> y"
      "\<forall>col. a + 1 \<le> col \<and> col < b \<longrightarrow> (\<exists>v. h col = Some v \<and> v \<le> y)"
      "y = max m v \<or> (\<exists>col. a + 1 \<le> col \<and> col < b \<and> h col = Some y)"
      unfolding step by blast
    have run: "getRowOffset_loop h a b (Some m) = Some y"
      using True y(1) by (subst getRowOffset_loop.simps) (simp add: step)
    have below: "\<exists>w. h col = Some w \<and> w \<le> y" if "a \<le> col" "col < b" for col
    proof (cases "col = a")
      case True with v y(2) show ?thesis by simp
    next
      case False
      with that have "a + 1 \<le> col" by simp
      with y(3) that show ?thesis by blast
    qed
    have attained: "y = m \<or> (\<exists>col. a \<le> col \<and> col < b \<and> h col = Some y)"
    proof (cases "y = max m v")
      case True
      show ?thesis
      proof (cases "v \<le> m")
        case True with \<open>y = max m v\<close> show ?thesis by simp
      next
        case False
        with \<open>y = max m v\<close> have "h a = Some y" by (simp add: v)
        with \<open>a < b\<close> show ?thesis by auto
      qed
    next
      case False
      with y(4) obtain col where "a + 1 \<le> col" "col < b" "h col = Some y" by blast
      then have "a \<le> col \<and> col < b \<and> h col = Some y" by simp
      then show ?thesis by blast
    qed
    from run y(2) below attained show ?thesis by auto
  qed
qed

lemma getRowOffset_Some:
  assumes "\<forall>col. a \<le> col \<and> col < a + w \<longrightarrow> (\<exists>v. h col = Some v)"
  shows "\<exists>y. getRowOffset h a w = Some y \<and> 0 \<le> y \<and>
           (\<forall>col. a \<le> col \<and> col < a + w \<longrightarrow> (\<exists>v. h col = Some v \<and> v \<le> y)) \<and>
           (y = 0 \<or> (\<exists>col. a \<le> col \<and> col < a + w \<and> h col = Some y))"
  unfolding getRowOffset_def using getRowOffset_loop_Some [OF assms, of 0] .

lemma findOptimalColumnOffset_range:
  assumes "0 \<le> cur" and "w \<le> columns"
  shows "0 \<le> findOptimalColumnOffset h columns cur w rs \<and>
         findOptimalColumnOffset h columns cur w rs + w \<le> columns"
proof (cases "findOptimalColumnOffset_loop h columns w rs cur")
  case (Some a)
  with findOptimalColumnOffset_loop_Some [OF Some] assms show ?thesis
    by (simp add: findOptimalColumnOffset_def)
next
  case first: None
  show ?thesis
  proof (cases "findOptimalColumnOffset_loop h columns w rs 0")
    case (Some a)
    with findOptimalColumnOffset_loop_Some [OF Some] first show ?thesis
      by (simp add: findOptimalColumnOffset_def)
  next
    case None
    with first assms show ?thesis by (simp add: findOptimalColumnOffset_def)
  qed
qed


lemma placeItem_packingInv:
  assumes inv: "packingInv columns s"
    and nohint: "readSetting st (itemColumnOffset item) columns = None"
    and w1: "1 \<le> getColumnSpan c st columns item"
    and wN: "getColumnSpan c st columns item \<le> columns"
    and r1: "1 \<le> getRowSpan c st columns item"
  shows "packingInv columns (placeItem c st columns item s)"
proof -
  define w where "w = getColumnSpan c st columns item"
  define rs where "rs = getRowSpan c st columns item"
  define h where "h = curColumnHeights s"
  define x where "x = findOptimalColumnOffset h columns (curColumnOffset s) w rs"
  define old where "old = curLayoutItems s"
  from inv have cur: "0 \<le> curColumnOffset s"
    and hs: "\<And>col. 0 \<le> col \<Longrightarrow> col < columns \<Longrightarrow>
          \<exists>v. h col = Some v \<and> 0 \<le> v \<and>
            (v = 0 \<or> (\<exists>item \<in> set old. map_option (\<lambda>y. y + gHeight item) (gY item) = Some v))"
    and within: "\<And>b. b \<in> set old \<Longrightarrow> placedWithin columns h b"
    and disj: "disjointItems old"
    and dist: "distinct (map (\<lambda>a. (gY a, gX a)) old)"
    by (auto simp: packingInv_def h_def old_def)
  from findOptimalColumnOffset_range [OF cur, of w columns h rs] wN
  have x0: "0 \<le> x" and xN: "x + w \<le> columns"
    by (simp_all add: x_def w_def)
  have "\<forall>col. x \<le> col \<and> col < x + w \<longrightarrow> (\<exists>v. h col = Some v)"
  proof (intro allI impI)
    fix col assume "x \<le> col \<and> col < x + w"
    with x0 xN have "0 \<le> col" "col < columns" by auto
    from hs [OF this] show "\<exists>v. h col = Some v" by blast
  qed
  from getRowOffset_Some [OF this]
  obtain y where y: "getRowOffset h x w = Some y" and y0: "0 \<le> y"
    and below: "\<And>col. x \<le> col \<Longrightarrow> col < x + w \<Longrightarrow> \<exists>v. h col = Some v \<and> v \<le> y"
    by blast
  define new where "new = \<lparr> gId = itemId item, gX = x, gY = Some y, gWidth = w, gHeight = rs \<rparr>"
  define h' where "h' = (\<lambda>col. if x \<le> col \<and> col < x + w then Some (y + rs) else h col)"
  have off: "getColumnOffset c st columns h item (curColumnOffset s) = x"
    using nohint by (simp add: getColumnOffset_def x_def w_def rs_def Let_def)
  have s': "placeItem c st columns item s =
      \<lparr> curColumnOffset = x + w, curLayoutItems = old @ [new], curColumnHeights = h' \<rparr>"
    unfolding placeItem_def Let_def using off y
    by (simp add: h_def w_def rs_def old_def new_def h'_def setColumnHeights_apply fun_eq_iff)
  have w1': "1 \<le> w" and r1': "1 \<le> rs" using w1 r1 by (simp_all add: w_def rs_def)
  have heights: "\<exists>v. h' col = Some v \<and> 0 \<le> v \<and>
      (v = 0 \<or> (\<exists>b \<in> set (old @ [new]). map_option (\<lambda>y. y + gHeight b) (gY b) = Some v))"
    if "0 \<le> col" "col < columns" for col
  proof (cases "x \<le> col \<and> col < x + w")
    case True
    then have "h' col = Some (y + rs)" by (simp add: h'_def)
    moreover have "map_option (\<lambda>y. y + gHeight new) (gY new) = Some (y + rs)"
      by (simp add: new_def)
    ultimately show ?thesis using y0 r1' by auto
  next
    case False
    then have "h' col = h col" by (auto simp: h'_def)
    with hs [OF that] show ?thesis by auto
  qed
  have within_old: "placedWithin columns h' b" if b: "b \<in> set old" for b
  proof -
    from within [OF b] obtain yb where b0: "0 \<le> gX b" "gX b + gWidth b \<le> columns"
      "1 \<le> gWidth b" "1 \<le> gHeight b" "gY b = Some yb" "0 \<le> yb"
      and bh: "\<And>col. gX b \<le> col \<Longrightarrow> col < gX b + gWidth b \<Longrightarrow>
                 \<exists>v. h col = Some v \<and> yb + gHeight b \<le> v"
      by (auto simp: placedWithin_def)
    have "\<exists>v. h' col = Some v \<and> yb + gHeight b \<le> v"
      if c: "gX b \<le> col" "col < gX b + gWidth b" for col
    proof (cases "x \<le> col \<and> col < x + w")
      case True
      from bh [OF c] obtain v where v: "h col = Some v" "yb + gHeight b \<le> v" by blast
      from below [of col] True obtain v' where "h col = Some v'" "v' \<le> y" by blast
      with v have "yb + gHeight b \<le> y + rs" using r1' by simp
      with True show ?thesis by (simp add: h'_def)
    next
      case False
      with bh [OF c] show ?thesis by (auto simp: h'_def)
    qed
    with b0 show ?thesis by (auto simp: placedWithin_def)
  qed
  have within_new: "placedWithin columns h' new"
    using x0 xN w1' r1' y0 by (auto simp: placedWithin_def new_def h'_def)
  have apart: "\<not> sharesCell b new" if b: "b \<in> set old" for b
  proof
    assume "sharesCell b new"
    then obtain col row where cb: "covers col row b" and cn: "covers col row new"
      by (auto simp: sharesCell_iff_covers)
    from within [OF b] obtain yb where yb: "gY b = Some yb"
      and bh: "\<And>col. gX b \<le> col \<Longrightarrow> col < gX b + gWidth b \<Longrightarrow>
                 \<exists>v. h col = Some v \<and> yb + gHeight b \<le> v"
      by (auto simp: placedWithin_def)
    from cb yb have c: "gX b \<le> col" "col < gX b + gWidth b" and rb: "row < yb + gHeight b"
      by (auto simp: covers_def)
    from cn have n: "x \<le> col" "col < x + w" and rn: "y \<le> row"
      by (auto simp: covers_def new_def)
    from bh [OF c] obtain v where v: "h col = Some v" "yb + gHeight b \<le> v" by blast
    from below [OF n] v have "v \<le> y" by auto
    with v rb rn show False by simp
  qed
  have fresh: "(gY new, gX new) \<notin> set (map (\<lambda>a. (gY a, gX a)) old)"
  proof
    assume "(gY new, gX new) \<in> set (map (\<lambda>a. (gY a, gX a)) old)"
    then obtain b where b: "b \<in> set old" and pos: "gY b = Some y" "gX b = x"
      by (auto simp: new_def)
    from within [OF b] pos have wb: "1 \<le> gWidth b" and hb: "1 \<le> gHeight b"
      and bh: "\<And>col. x \<le> col \<Longrightarrow> col < x + gWidth b \<Longrightarrow>
                 \<exists>v. h col = Some v \<and> y + gHeight b \<le> v"
      by (auto simp: placedWithin_def)
    from bh [of x] wb obtain v where v: "h x = Some v" "y + gHeight b \<le> v" by auto
    from below [of x] w1' v have "v \<le> y" by auto
    with v hb show False by simp
  qed
  have "disjointItems (old @ [new])"
    using disj apart by (simp add: disjointItems_snoc list_all_iff)
  moreover have "distinct (map (\<lambda>a. (gY a, gX a)) (old @ [new]))"
    using dist fresh by simp
  moreover have "0 \<le> x + w" using x0 w1' by simp
  moreover have "\<forall>b \<in> set (old @ [new]). placedWithin columns h' b"
    using within_old within_new by auto
  ultimately show ?thesis
    unfolding s' packingInv_def using heights by simp
qed

lemma getColumnSpan_ge_min: "MIN_COL_SPAN c \<le> getColumnSpan c st columns item"
  by (simp add: getColumnSpan_def getItemMinColumnSpan_def Let_def max.coboundedI1)

lemma getRowSpan_ge_min: "MIN_ROW_SPAN c \<le> getRowSpan c st columns item"
  by (simp add: getRowSpan_def getItemMinRowSpan_def Let_def max.coboundedI1)

lemma getColumnSpan_le_columns:
  assumes "readSetting st (itemColumnSpan item) columns = None"
    and "getItemMinColumnSpan c st item columns \<le> columns"
  shows "getColumnSpan c st columns item \<le> columns"
  using assms by (simp add: getColumnSpan_def getItemDefaultColumnSpan_def Let_def)

lemma placeItems_packingInv:
  assumes "packingInv columns s"
    and "\<forall>item \<in> set items.
           readSetting st (itemColumnOffset item) columns = None \<and>
           1 \<le> getColumnSpan c st columns item \<and> getColumnSpan c st columns item \<le> columns \<and>
           1 \<le> getRowSpan c st columns item"
  shows "packingInv columns (placeItems c st columns items s)"
  using assms
proof (induction items arbitrary: s)
  case Nil
  then show ?case by simp
next
  case (Cons item rest)
  from Cons.prems have "packingInv columns (placeItem c st columns item s)"
    by (intro placeItem_packingInv) auto
  with Cons show ?case by simp
qed

lemma initialPacking_packingInv: "packingInv columns (initialPacking columns)"
  by (simp add: packingInv_def initialPacking_def)

lemma length_placeItems:
  "length (curLayoutItems (placeItems c st columns items s)) = length (curLayoutItems s) + length items"
proof (induction items arbitrary: s)
  case Nil
  then show ?case by simp
next
  case (Cons item rest)
  have "length (curLayoutItems (placeItem c st columns item s)) = length (curLayoutItems s) + 1"
    by (simp add: placeItem_def Let_def)
  with Cons.IH [of "placeItem c st columns item s"] show ?case by simp
qed

lemma mset_insertItem: "mset (insertItem a xs) = add_mset a (mset xs)"
  by (induction xs) auto

lemma mset_foldr_insertItem: "mset (foldr insertItem xs []) = mset xs"
  by (induction xs) (auto simp: mset_insertItem)

lemma set_foldr_insertItem: "set (foldr insertItem xs []) = set xs"
  using mset_foldr_insertItem [of xs] by (metis set_mset_mset)

lemma length_foldr_insertItem: "length (foldr insertItem xs []) = length xs"
  using mset_foldr_insertItem [of xs] by (metis size_mset)

lemma set_insertItem: "set (insertItem a xs) = insert a (set xs)"
  using mset_insertItem [of a xs] by (metis set_mset_mset set_mset_add_mset_insert)

lemma disjointItems_insertItem: "disjointItems (insertItem a xs) = disjointItems (a # xs)"
proof (induction xs)
  case Nil
  then show ?case by simp
next
  case (Cons b bs)
  show ?case
  proof (cases "itemComparator a b > 0")
    case True
    then have "disjointItems (insertItem a (b # bs)) =
        (list_all (\<lambda>c. \<not> sharesCell b c) (insertItem a bs) \<and> disjointItems (a # bs))"
      using Cons.IH by simp
    also have "\<dots> = disjointItems (a # b # bs)"
      using sharesCell_sym [of a b] by (auto simp: list_all_iff set_insertItem)
    finally show ?thesis .
  next
    case False
    then show ?thesis by simp
  qed
qed

lemma disjointItems_foldr_insertItem: "disjointItems (foldr insertItem xs []) = disjointItems xs"
  by (induction xs) (auto simp: disjointItems_insertItem list_all_iff set_foldr_insertItem)

lemma disjointItems_nth:
  "disjointItems xs = (\<forall>i j. i < j \<longrightarrow> j < length xs \<longrightarrow> \<not> sharesCell (xs ! i) (xs ! j))"
proof -
  have "disjointItems xs = sorted_wrt (\<lambda>a b. \<not> sharesCell a b) xs"
    by (induction xs) (auto simp: list_all_iff)
  then show ?thesis by (simp add: sorted_wrt_iff_nth_less)
qed

lemma maxBottom_Some:
  assumes "\<forall>b \<in> set xs. \<exists>y. gY b = Some y \<and> 0 \<le> y + gHeight b"
  shows "\<exists>M. maxBottom xs = Some M \<and> 0 \<le> M \<and>
           (\<forall>b \<in> set xs. \<forall>y. gY b = Some y \<longrightarrow> y + gHeight b \<le> M) \<and>
           (M = 0 \<or> (\<exists>b \<in> set xs. map_option (\<lambda>y. y + gHeight b) (gY b) = Some M))"
  using assms
proof (induction xs)
  case Nil
  then show ?case by (simp add: maxBottom_def)
next
  case (Cons a xs)
  then obtain M where M: "maxBottom xs = Some M" "0 \<le> M"
    "\<forall>b \<in> set xs. \<forall>y. gY b = Some y \<longrightarrow> y + gHeight b \<le> M"
    "M = 0 \<or> (\<exists>b \<in> set xs. map_option (\<lambda>y. y + gHeight b) (gY b) = Some M)"
    by auto
  from Cons.prems obtain y where y: "gY a = Some y" "0 \<le> y + gHeight a" by auto
  have top: "maxBottom (a # xs) = Some (max (y + gHeight a) M)"
    using M(1) by (simp add: maxBottom_def Math_max_def y)
  show ?case
  proof (cases "M \<le> y + gHeight a")
    case True
    then have "max (y + gHeight a) M = y + gHeight a" by simp
    with top M y True show ?thesis by auto
  next
    case False
    then have "max (y + gHeight a) M = M" by simp
    with top M y False show ?thesis by auto
  qed
qed

lemma ordersItems_packingInv:
  assumes "packingInv columns s"
  shows "ordersItems (curLayoutItems s)"
proof -
  from assms have "\<forall>b \<in> set (curLayoutItems s). gY b \<noteq> None"
    by (auto simp: packingInv_def placedWithin_def)
  moreover from assms have "distinct (map (\<lambda>a. (gY a, gX a)) (curLayoutItems s))"
    by (simp add: packingInv_def)
  ultimately show ?thesis by (simp add: ordersItems_def list_all_iff)
qed

lemma rows_packingInv:
  assumes inv: "packingInv columns s"
  shows "getRowOffset (curColumnHeights s) 0 columns = maxBottom (foldr insertItem (curLayoutItems s) [])"
proof -
  define h where "h = curColumnHeights s"
  define old where "old = curLayoutItems s"
  from inv have hs: "\<And>col. 0 \<le> col \<Longrightarrow> col < columns \<Longrightarrow>
          \<exists>v. h col = Some v \<and> 0 \<le> v \<and>
            (v = 0 \<or> (\<exists>item \<in> set old. map_option (\<lambda>y. y + gHeight item) (gY item) = Some v))"
    and within: "\<And>b. b \<in> set old \<Longrightarrow> placedWithin columns h b"
    by (auto simp: packingInv_def h_def old_def)
  have "\<forall>col. 0 \<le> col \<and> col < 0 + columns \<longrightarrow> (\<exists>v. h col = Some v)"
    using hs by auto
  from getRowOffset_Some [OF this]
  obtain R where R: "getRowOffset h 0 columns = Some R" "0 \<le> R"
    and above: "\<And>col. 0 \<le> col \<Longrightarrow> col < columns \<Longrightarrow> \<exists>v. h col = Some v \<and> v \<le> R"
    and attained: "R = 0 \<or> (\<exists>col. 0 \<le> col \<and> col < columns \<and> h col = Some R)"
    by auto
  have "\<forall>b \<in> set (foldr insertItem old []). \<exists>y. gY b = Some y \<and> 0 \<le> y + gHeight b"
  proof
    fix b assume "b \<in> set (foldr insertItem old [])"
    then have "b \<in> set old" by (simp add: set_foldr_insertItem)
    from within [OF this] show "\<exists>y. gY b = Some y \<and> 0 \<le> y + gHeight b"
      by (auto simp: placedWithin_def)
  qed
  from maxBottom_Some [OF this]
  obtain M where M: "maxBottom (foldr insertItem old []) = Some M" "0 \<le> M"
    and bound: "\<And>b y. b \<in> set old \<Longrightarrow> gY b = Some y \<Longrightarrow> y + gHeight b \<le> M"
    and reached: "M = 0 \<or> (\<exists>b \<in> set old. map_option (\<lambda>y. y + gHeight b) (gY b) = Some M)"
    by (auto simp: set_foldr_insertItem)
  have "R \<le> M"
  proof (cases "R = 0")
    case True with M(2) show ?thesis by simp
  next
    case False
    with attained obtain col where col: "0 \<le> col" "col < columns" "h col = Some R" by blast
    from hs [OF col(1,2)] col(3) False
    obtain b where "b \<in> set old" "map_option (\<lambda>y. y + gHeight b) (gY b) = Some R" by auto
    then show ?thesis using bound [of b] by auto
  qed
  moreover have "M \<le> R"
  proof (cases "M = 0")
    case True with R(2) show ?thesis by simp
  next
    case False
    with reached obtain b where b: "b \<in> set old" "map_option (\<lambda>y. y + gHeight b) (gY b) = Some M"
      by blast
    then obtain y where y: "gY b = Some y" "M = y + gHeight b" by auto
    from within [OF b(1)] y(1) have "0 \<le> gX b" "gX b < columns"
      and "\<exists>v. h (gX b) = Some v \<and> y + gHeight b \<le> v"
      by (auto simp: placedWithin_def)
    with above [of "gX b"] y(2) show ?thesis by auto
  qed
  ultimately show ?thesis by (simp add: R M h_def [symmetric] old_def [symmetric])
qed

lemma interpretItems_plain:
  assumes "1 \<le> N" and "1 \<le> MIN_COL_SPAN c" and "1 \<le> MIN_ROW_SPAN c"
    and "\<forall>item \<in> set items.
           readSetting st (itemColumnSpan item) N = None \<and>
           readSetting st (itemColumnOffset item) N = None \<and>
           readSetting st (itemRowSpan item) N = None \<and>
           getItemMinColumnSpan c st item N \<le> N"
    and "N \<le> 4294967295"
  shows "packingInv N (placeItems c st N items (initialPacking N))"
    and "interpretItems c st items N =
           Inr \<lparr> gridItems =
                   foldr insertItem (curLayoutItems (placeItems c st N items (initialPacking N))) [],
                 gridColumns = N,
                 gridRows = getRowOffset (curColumnHeights (placeItems c st N items (initialPacking N))) 0 N \<rparr>"
proof -
  have "\<forall>item \<in> set items.
           readSetting st (itemColumnOffset item) N = None \<and>
           1 \<le> getColumnSpan c st N item \<and> getColumnSpan c st N item \<le> N \<and>
           1 \<le> getRowSpan c st N item"
  proof
    fix item assume "item \<in> set items"
    with assms(4) have plain: "readSetting st (itemColumnSpan item) N = None"
      "readSetting st (itemColumnOffset item) N = None" "getItemMinColumnSpan c st item N \<le> N"
      by auto
    from getColumnSpan_ge_min [of c st N item] assms(2) have "1 \<le> getColumnSpan c st N item"
      by simp
    moreover from getRowSpan_ge_min [of c st N item] assms(3) have "1 \<le> getRowSpan c st N item"
      by simp
    moreover note getColumnSpan_le_columns [OF plain(1,3)] plain(2)
    ultimately show "readSetting st (itemColumnOffset item) N = None \<and>
           1 \<le> getColumnSpan c st N item \<and> getColumnSpan c st N item \<le> N \<and>
           1 \<le> getRowSpan c st N item"
      by simp
  qed
  from placeItems_packingInv [OF initialPacking_packingInv this]
  show inv: "packingInv N (placeItems c st N items (initialPacking N))" .
  show "interpretItems c st items N =
           Inr \<lparr> gridItems =
                   foldr insertItem (curLayoutItems (placeItems c st N items (initialPacking N))) [],
                 gridColumns = N,
                 gridRows = getRowOffset (curColumnHeights (placeItems c st N items (initialPacking N))) 0 N \<rparr>"
    using assms(1,5) ordersItems_packingInv [OF inv]
    by (simp add: interpretItems_def sortItems_def Let_def)
qed

text \<open>
  Where no minimum column span exceeds the column count, the packing keeps the grid
  invariants: let the two constants be at least 1, \<open>1 \<le> N \<le> 2\<^sup>3\<^sup>2 - 1\<close> at least the minimum
  column span constant, and let every item carry no \<^verbatim>\<open>columnSpan\<close>, \<^verbatim>\<open>columnOffset\<close> or
  \<^verbatim>\<open>rowSpan\<close> hint for \<open>N\<close> and have a minimum column span of at most \<open>N\<close>. Then
  \<open>interpretItems\<close> returns a grid of \<open>N\<close> columns in which no two rectangles share a cell,
  every rectangle lies within the columns \<open>[0, N)\<close> at a row \<open>\<ge> 0\<close> with positive width and
  height, and \<^verbatim>\<open>rows\<close> is the maximum of \<open>y + height\<close> over the items (0 for none).
\<close>

lemma interpretItems_grid_invariants:
  assumes "1 \<le> N" and "1 \<le> MIN_COL_SPAN c" and "MIN_COL_SPAN c \<le> N" and "1 \<le> MIN_ROW_SPAN c"
    and "\<forall>item \<in> set items.
           readSetting st (itemColumnSpan item) N = None \<and>
           readSetting st (itemColumnOffset item) N = None \<and>
           readSetting st (itemRowSpan item) N = None \<and>
           getItemMinColumnSpan c st item N \<le> N"
    and "N \<le> 4294967295"
  shows "\<exists>g. interpretItems c st items N = Inr g \<and>
           gridColumns g = N \<and> length (gridItems g) = length items \<and>
           disjointItems (gridItems g) \<and>
           (\<forall>r \<in> set (gridItems g).
              0 \<le> gX r \<and> gX r + gWidth r \<le> N \<and> 1 \<le> gWidth r \<and> 1 \<le> gHeight r \<and>
              (\<exists>y. gY r = Some y \<and> 0 \<le> y)) \<and>
           gridRows g = maxBottom (gridItems g)"
proof -
  define s where "s = placeItems c st N items (initialPacking N)"
  define g where "g = \<lparr> gridItems = foldr insertItem (curLayoutItems s) [], gridColumns = N,
                        gridRows = getRowOffset (curColumnHeights s) 0 N \<rparr>"
  from interpretItems_plain [OF assms(1,2,4,5,6)]
  have inv: "packingInv N s" and run: "interpretItems c st items N = Inr g"
    by (simp_all add: s_def g_def)
  have len: "length (gridItems g) = length items"
    by (simp add: g_def length_foldr_insertItem s_def length_placeItems initialPacking_def)
  from inv have disj: "disjointItems (gridItems g)"
    by (simp add: g_def disjointItems_foldr_insertItem packingInv_def)
  from inv have rects: "\<forall>r \<in> set (gridItems g).
      0 \<le> gX r \<and> gX r + gWidth r \<le> N \<and> 1 \<le> gWidth r \<and> 1 \<le> gHeight r \<and>
      (\<exists>y. gY r = Some y \<and> 0 \<le> y)"
    by (auto simp: g_def set_foldr_insertItem packingInv_def placedWithin_def)
  have rows: "gridRows g = maxBottom (gridItems g)"
    using rows_packingInv [OF inv] by (simp add: g_def)
  from run len disj rects rows show ?thesis by (intro exI [of _ g]) (simp add: g_def)
qed

lemma interpretItems_grid_invariants_example:
  "(1::int) \<le> 3 \<and> 1 \<le> MIN_COL_SPAN exampleConstants \<and> MIN_COL_SPAN exampleConstants \<le> 3 \<and>
   1 \<le> MIN_ROW_SPAN exampleConstants \<and>
   list_all (\<lambda>item.
       readSetting [] (itemColumnSpan item) 3 = None \<and>
       readSetting [] (itemColumnOffset item) 3 = None \<and>
       readSetting [] (itemRowSpan item) 3 = None \<and>
       getItemMinColumnSpan exampleConstants [] item 3 \<le> 3)
     [tallItem, bareItem ''B'', bareItem ''D''] \<and>
   (\<exists>g. interpretItems exampleConstants [] [tallItem, bareItem ''B'', bareItem ''D''] 3 = Inr g \<and>
        gridColumns g = 3 \<and> length (gridItems g) = 3 \<and> disjointItems (gridItems g) \<and>
        gridRows g = maxBottom (gridItems g) \<and> gridRows g = Some 4)"
proof -
  have c: "(1::int) \<le> 3" "1 \<le> MIN_COL_SPAN exampleConstants" "MIN_COL_SPAN exampleConstants \<le> 3"
    "1 \<le> MIN_ROW_SPAN exampleConstants"
    by (simp_all add: exampleConstants_def)
  have plain: "list_all (\<lambda>item.
       readSetting [] (itemColumnSpan item) 3 = None \<and>
       readSetting [] (itemColumnOffset item) 3 = None \<and>
       readSetting [] (itemRowSpan item) 3 = None \<and>
       getItemMinColumnSpan exampleConstants [] item 3 \<le> 3)
     [tallItem, bareItem ''B'', bareItem ''D'']"
    by (simp add: tallItem_def bareItem_def readSetting_def getItemMinColumnSpan_def
        getColumnSpanForColumns_def exampleConstants_def)
  then have plain': "\<forall>item \<in> set [tallItem, bareItem ''B'', bareItem ''D''].
       readSetting [] (itemColumnSpan item) 3 = None \<and>
       readSetting [] (itemColumnOffset item) 3 = None \<and>
       readSetting [] (itemRowSpan item) 3 = None \<and>
       getItemMinColumnSpan exampleConstants [] item 3 \<le> 3"
    unfolding list_all_iff .
  have rows: "interpretItems exampleConstants [] [tallItem, bareItem ''B'', bareItem ''D''] 3 = Inr g
      \<Longrightarrow> gridRows g = Some 4" for g
    by (code_simp, auto)
  have b: "(3::int) \<le> 4294967295" by simp
  from interpretItems_grid_invariants [OF c plain' b] rows
  have "\<exists>g. interpretItems exampleConstants [] [tallItem, bareItem ''B'', bareItem ''D''] 3 = Inr g \<and>
        gridColumns g = 3 \<and> length (gridItems g) = 3 \<and> disjointItems (gridItems g) \<and>
        gridRows g = maxBottom (gridItems g) \<and> gridRows g = Some 4"
    by auto
  with c plain show ?thesis by (simp only: simp_thms)
qed

text \<open>
  C9: the code breaks the claim where an item's minimum column span exceeds the column
  count. An item without hints whose \<^verbatim>\<open>definition.minColumnSpan\<close> asks for 2 columns, in a
  grid of 1 column: \<^verbatim>\<open>getItemDefaultColumnSpan\<close> clamps the default span to the 1 column
  (\<^verbatim>\<open>Math.min(columns, ...)\<close>), and \<^verbatim>\<open>getColumnSpan\<close> undoes the clamp by taking
  \<^verbatim>\<open>Math.max\<close> with the minimum span 2, which is not clamped. The item is given the width 2
  and leaves the grid, its row is \<^verbatim>\<open>NaN\<close> (the read of \<^verbatim>\<open>columnHeights[1]\<close> is
  \<^verbatim>\<open>undefined\<close>), and so is \<^verbatim>\<open>rows\<close>.
\<close>

theorem interpretItems_minimum_span_exceeds_columns:
  "readSetting [[1 \<mapsto> 2]] (itemColumnSpan wideMinimumItem) 1 = None \<and>
   readSetting [[1 \<mapsto> 2]] (itemColumnOffset wideMinimumItem) 1 = None \<and>
   readSetting [[1 \<mapsto> 2]] (itemRowSpan wideMinimumItem) 1 = None \<and>
   MIN_COL_SPAN exampleConstants \<le> 1 \<and>
   getItemDefaultColumnSpan exampleConstants [[1 \<mapsto> 2]] wideMinimumItem 1 = 1 \<and>
   getItemMinColumnSpan exampleConstants [[1 \<mapsto> 2]] wideMinimumItem 1 = 2 \<and>
   getColumnSpan exampleConstants [[1 \<mapsto> 2]] 1 wideMinimumItem = 2 \<and>
   interpretItems exampleConstants [[1 \<mapsto> 2]] [wideMinimumItem] 1 =
     Inr \<lparr> gridItems = [\<lparr> gId = ''A'', gX = 0, gY = None, gWidth = 2, gHeight = 2 \<rparr>],
           gridColumns = 1, gridRows = None \<rparr>"
  by code_simp

section \<open>Round trip through \<^verbatim>\<open>transformItems\<close> (C3)\<close>

lemma fold_itemById_Some:
  "fold (\<lambda>item m. m(itemId item \<mapsto> item)) xs m i = Some item \<Longrightarrow>
     (itemId item = i \<and> item \<in> set xs) \<or> m i = Some item"
proof (induction xs arbitrary: m)
  case Nil
  then show ?case by simp
next
  case (Cons x xs)
  from Cons.IH [of "m(itemId x \<mapsto> x)"] Cons.prems
  have "(itemId item = i \<and> item \<in> set xs) \<or> (m(itemId x \<mapsto> x)) i = Some item" by simp
  then show ?case by (auto split: if_splits)
qed

lemma itemById_Some: "itemById xs i = Some item \<Longrightarrow> itemId item = i \<and> item \<in> set xs"
  using fold_itemById_Some [of xs Map.empty i item] by (simp add: itemById_def)

lemma fold_itemById_dom:
  "i \<in> itemId ` set xs \<or> m i \<noteq> None \<Longrightarrow>
     fold (\<lambda>item m. m(itemId item \<mapsto> item)) xs m i \<noteq> None"
proof (induction xs arbitrary: m)
  case Nil
  then show ?case by simp
next
  case (Cons x xs)
  from Cons.prems have "i \<in> itemId ` set xs \<or> (m(itemId x \<mapsto> x)) i \<noteq> None" by auto
  from Cons.IH [of "m(itemId x \<mapsto> x)"] this show ?case by simp
qed

lemma itemById_dom: "i \<in> itemId ` set xs \<Longrightarrow> \<exists>item. itemById xs i = Some item"
  using fold_itemById_dom [of i xs Map.empty] by (auto simp: itemById_def)

lemma writeItemSetting_itemId [simp]:
  "itemId (snd (writeItemSetting si name layout v)) = itemId (snd si)"
  by (cases name) (auto simp: writeItemSetting_def split: option.splits)

lemma transformItem_itemId [simp]:
  "itemId (snd (transformItem changeFrom columns rows index l source st)) = itemId source"
  by (simp add: transformItem_def Let_def)

lemma findIndex_loop_total:
  "length ls \<le> length ss \<Longrightarrow> \<exists>r. findIndex_loop ss ls i = Inr r"
  by (induction ss ls i rule: findIndex_loop.induct) auto

lemma transformItems_loop_ids:
  assumes "\<forall>l \<in> set ls. \<exists>item. byId (gId l) = Some item \<and> itemId item = gId l"
  shows "\<exists>st' new. transformItems_loop byId changeFrom columns rows ls index st acc = Inr (st', acc @ new) \<and>
           map itemId new = map gId ls"
  using assms
proof (induction ls arbitrary: index st acc)
  case Nil
  then show ?case by simp
next
  case (Cons l ls)
  then obtain source where source: "byId (gId l) = Some source" "itemId source = gId l"
    by auto
  obtain st1 item where step: "transformItem changeFrom columns rows index l source st = (st1, item)"
    by (cases "transformItem changeFrom columns rows index l source st")
  have item: "itemId item = gId l"
    using transformItem_itemId [of changeFrom columns rows index l source st] step source(2) by simp
  from Cons.prems have "\<forall>l \<in> set ls. \<exists>item. byId (gId l) = Some item \<and> itemId item = gId l"
    by simp
  from Cons.IH [OF this, of "index + 1" st1 "acc @ [item]"]
  obtain st' new where rest:
    "transformItems_loop byId changeFrom columns rows ls (index + 1) st1 (acc @ [item]) =
       Inr (st', (acc @ [item]) @ new)" "map itemId new = map gId ls"
    by blast
  have "transformItems_loop byId changeFrom columns rows (l # ls) index st acc =
          Inr (st', acc @ (item # new))"
    using source(1) step rest(1) by (simp add: getItem_def)
  moreover have "map itemId (item # new) = map gId (l # ls)"
    using item rest(2) by simp
  ultimately show ?case by blast
qed

lemma itemComparator_asym: "itemComparator a b > 0 \<Longrightarrow> \<not> itemComparator b a > 0"
  by (auto simp: itemComparator_def split: option.splits if_splits)

lemma successively_insertItem:
  "successively (\<lambda>a b. \<not> itemComparator a b > 0) xs \<Longrightarrow>
     successively (\<lambda>a b. \<not> itemComparator a b > 0) (insertItem a xs)"
proof (induction xs)
  case Nil
  then show ?case by simp
next
  case (Cons b bs)
  show ?case
  proof (cases "itemComparator a b > 0")
    case False
    with Cons.prems show ?thesis by simp
  next
    case True
    from Cons.prems have tail: "successively (\<lambda>a b. \<not> itemComparator a b > 0) bs"
      by (cases bs) auto
    note ih = Cons.IH [OF tail]
    show ?thesis
    proof (cases bs)
      case Nil
      with True itemComparator_asym [OF True] show ?thesis by simp
    next
      case (Cons c cs)
      with True itemComparator_asym [OF True] ih Cons.prems show ?thesis by auto
    qed
  qed
qed

lemma successively_foldr_insertItem:
  "successively (\<lambda>a b. \<not> itemComparator a b > 0) (foldr insertItem xs [])"
  by (induction xs) (auto intro: successively_insertItem)

lemma foldr_insertItem_ascending:
  "successively (\<lambda>a b. \<not> itemComparator a b > 0) xs \<Longrightarrow> foldr insertItem xs [] = xs"
proof (induction xs)
  case Nil
  then show ?case by simp
next
  case (Cons a xs)
  then have "foldr insertItem xs [] = xs" by (cases xs) auto
  with Cons.prems show ?case by (cases xs) auto
qed

lemma ordersItems_foldr_insertItem: "ordersItems (foldr insertItem xs []) = ordersItems xs"
proof -
  have m: "mset (foldr insertItem xs []) = mset xs" by (rule mset_foldr_insertItem)
  have "mset (map (\<lambda>a. (gY a, gX a)) (foldr insertItem xs [])) = mset (map (\<lambda>a. (gY a, gX a)) xs)"
    using m by (metis mset_map)
  then have "distinct (map (\<lambda>a. (gY a, gX a)) (foldr insertItem xs [])) =
             distinct (map (\<lambda>a. (gY a, gX a)) xs)"
    by (rule mset_eq_imp_distinct_iff)
  then show ?thesis
    by (simp add: ordersItems_def list_all_iff set_foldr_insertItem length_foldr_insertItem)
qed

lemma sortItems_idem:
  "ordersItems xs \<Longrightarrow> sortItems xs = Inr ys \<Longrightarrow> sortItems ys = Inr ys"
proof -
  assume o: "ordersItems xs" and "sortItems xs = Inr ys"
  then have ys: "ys = foldr insertItem xs []"
    by (simp add: sortItems_def)
  from o have "ordersItems ys" by (simp add: ys ordersItems_foldr_insertItem)
  moreover have "foldr insertItem ys [] = ys"
    unfolding ys by (rule foldr_insertItem_ascending) (rule successively_foldr_insertItem)
  ultimately show ?thesis by (simp add: sortItems_def)
qed

lemma map_gId_placeItems:
  "map gId (curLayoutItems (placeItems c st columns items s)) =
     map gId (curLayoutItems s) @ map itemId items"
proof (induction items arbitrary: s)
  case Nil
  then show ?case by simp
next
  case (Cons item rest)
  have "map gId (curLayoutItems (placeItem c st columns item s)) =
          map gId (curLayoutItems s) @ [itemId item]"
    by (simp add: placeItem_def Let_def)
  with Cons.IH [of "placeItem c st columns item s"] show ?case by simp
qed

lemma transformItems_after_interpretItems:
  assumes run: "interpretItems c st items N = Inr g"
    and ordered: "ordersItems (curLayoutItems (placeItems c st N items (initialPacking N)))"
  shows "\<exists>st' items'. transformItems st items g = Inr (st', items') \<and>
           map itemId items' = map gId (gridItems g)"
proof -
  define placed where "placed = curLayoutItems (placeItems c st N items (initialPacking N))"
  from run have sorted: "sortItems placed = Inr (gridItems g)"
    by (auto simp: interpretItems_def Let_def placed_def split: if_splits sum.splits)
  with ordered have g: "gridItems g = foldr insertItem placed []"
    by (simp add: sortItems_def placed_def)
  have again: "sortItems (gridItems g) = Inr (gridItems g)"
    using ordered sorted unfolding placed_def [symmetric] by (rule sortItems_idem)
  have ids: "map gId placed = map itemId items"
    by (simp add: placed_def map_gId_placeItems initialPacking_def)
  have "length (gridItems g) = length items"
    using ids by (metis g length_foldr_insertItem length_map)
  then obtain found where found: "findIndex_loop items (gridItems g) 0 = Inr found"
    using findIndex_loop_total [of "gridItems g" items 0] by auto
  have "\<forall>l \<in> set (gridItems g). \<exists>item. itemById items (gId l) = Some item \<and> itemId item = gId l"
  proof
    fix l assume "l \<in> set (gridItems g)"
    then have "l \<in> set placed" by (simp add: g set_foldr_insertItem)
    then have "gId l \<in> set (map gId placed)" by simp
    then have "gId l \<in> itemId ` set items" by (simp add: ids)
    from itemById_dom [OF this] obtain item where "itemById items (gId l) = Some item" ..
    with itemById_Some [OF this]
    show "\<exists>item. itemById items (gId l) = Some item \<and> itemId item = gId l" by blast
  qed
  from transformItems_loop_ids [OF this, of _ "gridColumns g" "gridRows g" 0 st "[]"]
  show ?thesis
    by (simp add: transformItems_def again changeFromIndex_def found)
qed

text \<open>
  Where no minimum column span exceeds the column count, the round trip keeps the order:
  let the two constants be at least 1, \<open>1 \<le> N \<le> 2\<^sup>3\<^sup>2 - 1\<close>, and let every item carry no
  \<^verbatim>\<open>columnSpan\<close>, \<^verbatim>\<open>columnOffset\<close> or \<^verbatim>\<open>rowSpan\<close> hint for \<open>N\<close> and have a minimum
  column span of at most \<open>N\<close>. Then \<open>interpretItems\<close> returns a grid, \<open>transformItems\<close> applied
  to the items and that grid returns items, and their ids come in the row-major order of
  the grid.
\<close>

lemma transformItems_interpretItems_order:
  assumes "1 \<le> N" and "1 \<le> MIN_COL_SPAN c" and "1 \<le> MIN_ROW_SPAN c"
    and "\<forall>item \<in> set items.
           readSetting st (itemColumnSpan item) N = None \<and>
           readSetting st (itemColumnOffset item) N = None \<and>
           readSetting st (itemRowSpan item) N = None \<and>
           getItemMinColumnSpan c st item N \<le> N"
    and "N \<le> 4294967295"
  shows "\<exists>g st' items'.
           interpretItems c st items N = Inr g \<and>
           transformItems st items g = Inr (st', items') \<and>
           map itemId items' = map gId (gridItems g)"
proof -
  from interpretItems_plain [OF assms]
  have inv: "packingInv N (placeItems c st N items (initialPacking N))"
    and "\<exists>g. interpretItems c st items N = Inr g"
    by blast+
  then obtain g where g: "interpretItems c st items N = Inr g" by blast
  from transformItems_after_interpretItems [OF g ordersItems_packingInv [OF inv]] g
  show ?thesis by blast
qed

lemma transformItems_interpretItems_order_example:
  "(1::int) \<le> 3 \<and> 1 \<le> MIN_COL_SPAN exampleConstants \<and> 1 \<le> MIN_ROW_SPAN exampleConstants \<and>
   list_all (\<lambda>item.
       readSetting [[0 \<mapsto> 2]] (itemColumnSpan item) 3 = None \<and>
       readSetting [[0 \<mapsto> 2]] (itemColumnOffset item) 3 = None \<and>
       readSetting [[0 \<mapsto> 2]] (itemRowSpan item) 3 = None \<and>
       getItemMinColumnSpan exampleConstants [[0 \<mapsto> 2]] item 3 \<le> 3)
     fiveItems \<and>
   (\<exists>g st' items'.
      interpretItems exampleConstants [[0 \<mapsto> 2]] fiveItems 3 = Inr g \<and>
      transformItems [[0 \<mapsto> 2]] fiveItems g = Inr (st', items') \<and>
      map itemId items' = map gId (gridItems g) \<and>
      map gId (gridItems g) = [''B'', ''A'', ''C'', ''E'', ''D''])"
proof -
  have c: "(1::int) \<le> 3" "1 \<le> MIN_COL_SPAN exampleConstants" "1 \<le> MIN_ROW_SPAN exampleConstants"
    by (simp_all add: exampleConstants_def)
  have plain: "list_all (\<lambda>item.
       readSetting [[0 \<mapsto> 2]] (itemColumnSpan item) 3 = None \<and>
       readSetting [[0 \<mapsto> 2]] (itemColumnOffset item) 3 = None \<and>
       readSetting [[0 \<mapsto> 2]] (itemRowSpan item) 3 = None \<and>
       getItemMinColumnSpan exampleConstants [[0 \<mapsto> 2]] item 3 \<le> 3)
     fiveItems"
    by (simp add: fiveItems_def defaultWideItem_def tallItem_def bareItem_def readSetting_def
        getItemMinColumnSpan_def getColumnSpanForColumns_def exampleConstants_def)
  then have plain': "\<forall>item \<in> set fiveItems.
       readSetting [[0 \<mapsto> 2]] (itemColumnSpan item) 3 = None \<and>
       readSetting [[0 \<mapsto> 2]] (itemColumnOffset item) 3 = None \<and>
       readSetting [[0 \<mapsto> 2]] (itemRowSpan item) 3 = None \<and>
       getItemMinColumnSpan exampleConstants [[0 \<mapsto> 2]] item 3 \<le> 3"
    unfolding list_all_iff .
  have ids: "interpretItems exampleConstants [[0 \<mapsto> 2]] fiveItems 3 = Inr g
      \<Longrightarrow> map gId (gridItems g) = [''B'', ''A'', ''C'', ''E'', ''D'']" for g
    by (code_simp, auto)
  have b: "(3::int) \<le> 4294967295" by simp
  from transformItems_interpretItems_order [OF c plain' b] ids
  have "\<exists>g st' items'.
      interpretItems exampleConstants [[0 \<mapsto> 2]] fiveItems 3 = Inr g \<and>
      transformItems [[0 \<mapsto> 2]] fiveItems g = Inr (st', items') \<and>
      map itemId items' = map gId (gridItems g) \<and>
      map gId (gridItems g) = [''B'', ''A'', ''C'', ''E'', ''D'']"
    by blast
  with c plain show ?thesis by (simp only: simp_thms)
qed

text \<open>
  C3: the code breaks the claim where an item's minimum column span exceeds the column
  count (the defect shown for C9). Two items without hints whose minimum column span is 2
  are both placed at column 0 of a 1-column grid with the row \<^verbatim>\<open>NaN\<close>. \<^verbatim>\<open>itemComparator\<close>
  answers \<open>-1\<close> for the pair in either order, so \<^verbatim>\<open>sort\<close> reverses the pair at every call:
  the grid of \<^verbatim>\<open>interpretItems\<close> has B before A, and \<^verbatim>\<open>transformItems\<close>, which sorts the
  grid's items again, returns A before B.
\<close>

theorem roundTrip_reverses_order:
  "list_all (\<lambda>item. itemColumnSpan item = None \<and> itemColumnOffset item = None \<and> itemRowSpan item = None)
     wideMinimumItems \<and>
   curLayoutItems (placeItems exampleConstants [[1 \<mapsto> 2]] 1 wideMinimumItems (initialPacking 1)) =
     [\<lparr> gId = ''A'', gX = 0, gY = None, gWidth = 2, gHeight = 2 \<rparr>,
      \<lparr> gId = ''B'', gX = 0, gY = None, gWidth = 2, gHeight = 2 \<rparr>] \<and>
   itemComparator \<lparr> gId = ''A'', gX = 0, gY = None, gWidth = 2, gHeight = 2 \<rparr>
                  \<lparr> gId = ''B'', gX = 0, gY = None, gWidth = 2, gHeight = 2 \<rparr> = - 1 \<and>
   itemComparator \<lparr> gId = ''B'', gX = 0, gY = None, gWidth = 2, gHeight = 2 \<rparr>
                  \<lparr> gId = ''A'', gX = 0, gY = None, gWidth = 2, gHeight = 2 \<rparr> = - 1 \<and>
   interpretItems exampleConstants [[1 \<mapsto> 2]] wideMinimumItems 1 =
     Inr \<lparr> gridItems =
             [\<lparr> gId = ''B'', gX = 0, gY = None, gWidth = 2, gHeight = 2 \<rparr>,
              \<lparr> gId = ''A'', gX = 0, gY = None, gWidth = 2, gHeight = 2 \<rparr>],
           gridColumns = 1, gridRows = None \<rparr> \<and>
   roundTrip exampleConstants [[1 \<mapsto> 2]] wideMinimumItems 1 = Inr ([''B'', ''A''], [''A'', ''B''])"
  by code_simp

section \<open>The engine's sort on items that the comparator orders\<close>

text \<open>
  On items with numeric rows and pairwise different positions, run detection and binary
  insertion return the ascending arrangement: the two branches of \<open>sortItems\<close> agree, and
  \<open>sortItems\<close> is the engine's sort for every array of fewer than 64 items.
\<close>

lemma rowMajorLess_trans: "rowMajorLess a b \<Longrightarrow> rowMajorLess b c \<Longrightarrow> rowMajorLess a c"
  by (auto simp: rowMajorLess_def split: option.splits)

lemma rowMajorLess_asym: "rowMajorLess a b \<Longrightarrow> \<not> rowMajorLess b a"
  by (auto simp: rowMajorLess_def split: option.splits)

lemma transp_rowMajorLess: "transp rowMajorLess"
  by (rule transpI) (rule rowMajorLess_trans)

lemma transp_rowMajorLess_conv: "transp (\<lambda>a b. rowMajorLess b a)"
  by (rule transpI) (blast intro: rowMajorLess_trans)

lemma itemComparator_less:
  "gY a \<noteq> None \<Longrightarrow> gY b \<noteq> None \<Longrightarrow> (gY a, gX a) \<noteq> (gY b, gX b) \<Longrightarrow>
     (itemComparator a b < 0) = rowMajorLess a b"
  by (auto simp: itemComparator_def rowMajorLess_def split: option.splits)

lemma itemComparator_not_less:
  "gY a \<noteq> None \<Longrightarrow> gY b \<noteq> None \<Longrightarrow> (gY a, gX a) \<noteq> (gY b, gX b) \<Longrightarrow>
     (\<not> itemComparator a b < 0) = rowMajorLess b a"
  by (auto simp: itemComparator_def rowMajorLess_def split: option.splits)

lemma positioned_nth:
  assumes "positioned xs" "i < length xs" "j < length xs" "i \<noteq> j"
  shows "gY (xs ! i) \<noteq> None" "gY (xs ! j) \<noteq> None"
    "(gY (xs ! i), gX (xs ! i)) \<noteq> (gY (xs ! j), gX (xs ! j))"
proof -
  from assms show "gY (xs ! i) \<noteq> None" "gY (xs ! j) \<noteq> None"
    by (auto simp: positioned_def list_all_length)
  from assms have d: "distinct (map (\<lambda>a. (gY a, gX a)) xs)" by (simp add: positioned_def)
  from assms(2,3,4) nth_eq_iff_index_eq [OF d, of i j]
  show "(gY (xs ! i), gX (xs ! i)) \<noteq> (gY (xs ! j), gX (xs ! j))" by simp
qed

lemma positioned_mset: "mset xs = mset ys \<Longrightarrow> positioned xs = positioned ys"
proof -
  assume m: "mset xs = mset ys"
  then have "mset (map (\<lambda>a. (gY a, gX a)) xs) = mset (map (\<lambda>a. (gY a, gX a)) ys)"
    by (metis mset_map)
  then have "distinct (map (\<lambda>a. (gY a, gX a)) xs) = distinct (map (\<lambda>a. (gY a, gX a)) ys)"
    by (rule mset_eq_imp_distinct_iff)
  moreover from m have "set xs = set ys" by (rule mset_eq_setD)
  ultimately show ?thesis by (simp add: positioned_def list_all_iff)
qed

lemma sorted_wrt_rowMajorLess_unique:
  "sorted_wrt rowMajorLess xs \<Longrightarrow> sorted_wrt rowMajorLess ys \<Longrightarrow> set xs = set ys \<Longrightarrow> xs = ys"
proof (induction xs arbitrary: ys)
  case Nil
  then show ?case by simp
next
  case (Cons a xs)
  then obtain b ys' where ys: "ys = b # ys'" by (cases ys) auto
  have ab: "a = b"
  proof (rule ccontr)
    assume ne: "a \<noteq> b"
    from Cons.prems(3) ys ne have "a \<in> set ys'" "b \<in> set xs" by auto
    with Cons.prems(1,2) ys have "rowMajorLess b a" "rowMajorLess a b" by auto
    with rowMajorLess_asym show False by blast
  qed
  have "a \<notin> set xs" using Cons.prems(1) rowMajorLess_asym by auto
  moreover have "b \<notin> set ys'" using Cons.prems(2) ys rowMajorLess_asym by auto
  ultimately have "set xs = set ys'" using Cons.prems(3) ys ab by auto
  with Cons.IH [of ys'] Cons.prems(1,2) ys have "xs = ys'" by simp
  with ab ys show ?case by simp
qed


lemma binarySearch_spec:
  "positioned w \<Longrightarrow> start < length w \<Longrightarrow> sorted_wrt rowMajorLess (take start w) \<Longrightarrow>
     pivot = w ! start \<Longrightarrow> left \<le> right \<Longrightarrow> right \<le> start \<Longrightarrow>
     (\<forall>i<left. rowMajorLess (w ! i) pivot) \<Longrightarrow>
     (\<forall>i. right \<le> i \<and> i < start \<longrightarrow> rowMajorLess pivot (w ! i)) \<Longrightarrow>
     binarySearch pivot w left right \<le> start \<and>
     (\<forall>i<binarySearch pivot w left right. rowMajorLess (w ! i) pivot) \<and>
     (\<forall>i. binarySearch pivot w left right \<le> i \<and> i < start \<longrightarrow> rowMajorLess pivot (w ! i))"
proof (induction pivot w left right rule: binarySearch.induct)
  case (1 pivot w left right)
  note search = binarySearch.simps [of pivot w left right]
  note pos = "1.prems"(1) and start = "1.prems"(2) and srt = "1.prems"(3) and pivot = "1.prems"(4)
    and lr = "1.prems"(5) and rs = "1.prems"(6) and below = "1.prems"(7) and above = "1.prems"(8)
  have ordered: "rowMajorLess (w ! i) (w ! j)" if "i < j" "j < start" for i j
    using sorted_wrt_nth_less [OF srt, of i j] that start by simp
  show ?case
  proof (cases "left < right")
    case False
    then have "binarySearch pivot w left right = left" by (simp add: search)
    moreover from False lr have "left = right" by simp
    ultimately show ?thesis using rs below above by simp
  next
    case True
    define mid where "mid = left + (right - left) div 2"
    from True have mid: "left \<le> mid" "mid < right" by (simp_all add: mid_def)
    with rs have mid_start: "mid < start" by simp
    note facts = positioned_nth [OF pos, of start mid]
    show ?thesis
    proof (cases "itemComparator pivot (w ! mid) < 0")
      case less: True
      with facts start mid_start have before: "rowMajorLess pivot (w ! mid)"
        using itemComparator_less [of "w ! start" "w ! mid"] pivot by simp
      have upper: "\<forall>i. mid \<le> i \<and> i < start \<longrightarrow> rowMajorLess pivot (w ! i)"
      proof (intro allI impI)
        fix i assume i: "mid \<le> i \<and> i < start"
        show "rowMajorLess pivot (w ! i)"
        proof (cases "i = mid")
          case True with before show ?thesis by simp
        next
          case False
          with i have "mid < i" by simp
          from ordered [OF this] i before show ?thesis by (blast intro: rowMajorLess_trans)
        qed
      qed
      from mid_start have ms: "mid \<le> start" by simp
      from "1.IH"(1) [OF True mid_def less pos start srt pivot mid(1) ms below upper]
      have "binarySearch pivot w left mid \<le> start \<and>
         (\<forall>i<binarySearch pivot w left mid. rowMajorLess (w ! i) pivot) \<and>
         (\<forall>i. binarySearch pivot w left mid \<le> i \<and> i < start \<longrightarrow> rowMajorLess pivot (w ! i))" .
      moreover have "binarySearch pivot w left right = binarySearch pivot w left mid"
        using True less by (simp add: search mid_def Let_def)
      ultimately show ?thesis by simp
    next
      case notless: False
      with facts start mid_start have after: "rowMajorLess (w ! mid) pivot"
        using itemComparator_not_less [of "w ! start" "w ! mid"] pivot by simp
      have lower: "\<forall>i<mid + 1. rowMajorLess (w ! i) pivot"
      proof (intro allI impI)
        fix i assume i: "i < mid + 1"
        show "rowMajorLess (w ! i) pivot"
        proof (cases "i = mid")
          case True with after show ?thesis by simp
        next
          case False
          with i have "i < mid" by simp
          from ordered [OF this mid_start] after show ?thesis by (blast intro: rowMajorLess_trans)
        qed
      qed
      from mid have le: "mid + 1 \<le> right" by simp
      from "1.IH"(2) [OF True mid_def notless pos start srt pivot le rs lower above]
      have "binarySearch pivot w (mid + 1) right \<le> start \<and>
         (\<forall>i<binarySearch pivot w (mid + 1) right. rowMajorLess (w ! i) pivot) \<and>
         (\<forall>i. binarySearch pivot w (mid + 1) right \<le> i \<and> i < start \<longrightarrow> rowMajorLess pivot (w ! i))" .
      moreover have "binarySearch pivot w left right = binarySearch pivot w (mid + 1) right"
        using True notless by (simp add: search mid_def Let_def)
      ultimately show ?thesis by simp
    qed
  qed
qed


lemma take_length_append: "take (length xs) (xs @ ys) = xs"
  by simp

lemma insertPivot_spec:
  assumes pos: "positioned w" and start: "start < length w"
    and srt: "sorted_wrt rowMajorLess (take start w)"
  shows "mset (insertPivot w start) = mset w"
    and "sorted_wrt rowMajorLess (take (start + 1) (insertPivot w start))"
proof -
  define k where "k = binarySearch (w ! start) w 0 start"
  define lo where "lo = take k w"
  define mid where "mid = take (start - k) (drop k w)"
  have "\<forall>i<0::nat. rowMajorLess (w ! i) (w ! start)"
    and "\<forall>i. start \<le> i \<and> i < start \<longrightarrow> rowMajorLess (w ! start) (w ! i)"
    by auto
  from binarySearch_spec [OF pos start srt refl le0 order_refl this]
  have k: "k \<le> start" and below: "\<forall>i<k. rowMajorLess (w ! i) (w ! start)"
    and above: "\<forall>i. k \<le> i \<and> i < start \<longrightarrow> rowMajorLess (w ! start) (w ! i)"
    by (simp_all add: k_def)
  have "take k (take start w) = lo" using k by (simp add: lo_def min_def)
  moreover have "drop k (take start w) = mid" by (simp add: mid_def drop_take)
  ultimately have "lo @ mid = take k (take start w) @ drop k (take start w)" by (simp only:)
  also have "\<dots> = take start w" by (rule append_take_drop_id)
  finally have prefix: "take start w = lo @ mid" by (rule sym)
  have ins: "insertPivot w start = lo @ [w ! start] @ mid @ drop (start + 1) w"
    by (simp add: insertPivot_def Let_def k_def lo_def mid_def)
  have whole: "w = (lo @ mid) @ w ! start # drop (Suc start) w"
    using id_take_nth_drop [OF start] prefix by simp
  have "mset w = mset ((lo @ mid) @ w ! start # drop (Suc start) w)"
    using whole by simp
  then show "mset (insertPivot w start) = mset w" by (simp add: ins)
  have len: "length lo = k" "length mid = start - k"
    using k start by (simp_all add: lo_def mid_def)
  then have l: "length (lo @ w ! start # mid) = start + 1" using k by simp
  have "take (length (lo @ w ! start # mid)) ((lo @ w ! start # mid) @ drop (start + 1) w) =
          lo @ w ! start # mid"
    by (rule take_length_append)
  then have "take (start + 1) ((lo @ w ! start # mid) @ drop (start + 1) w) = lo @ w ! start # mid"
    unfolding l .
  moreover have "insertPivot w start = (lo @ w ! start # mid) @ drop (start + 1) w"
    by (simp add: ins)
  ultimately have "take (start + 1) (insertPivot w start) = lo @ w ! start # mid"
    by (simp only:)
  moreover have "sorted_wrt rowMajorLess (lo @ w ! start # mid)"
  proof -
    from srt prefix have both: "sorted_wrt rowMajorLess (lo @ mid)" by simp
    have lo: "\<forall>x \<in> set lo. rowMajorLess x (w ! start)"
    proof
      fix x assume "x \<in> set lo"
      then obtain i where "i < length lo" "x = lo ! i" by (auto simp: in_set_conv_nth)
      with len below show "rowMajorLess x (w ! start)" by (simp add: lo_def)
    qed
    have mid: "\<forall>y \<in> set mid. rowMajorLess (w ! start) y"
    proof
      fix y assume "y \<in> set mid"
      then obtain j where j: "j < length mid" "y = mid ! j" by (auto simp: in_set_conv_nth)
      with len k start have "y = w ! (k + j)" by (simp add: mid_def)
      moreover from j len have "k \<le> k + j \<and> k + j < start" by simp
      ultimately show "rowMajorLess (w ! start) y" using above by blast
    qed
    from both lo mid show ?thesis by (auto simp: sorted_wrt_append)
  qed
  ultimately show "sorted_wrt rowMajorLess (take (start + 1) (insertPivot w start))" by simp
qed

lemma binaryInsertionSort_spec:
  "positioned w \<Longrightarrow> start \<le> high \<Longrightarrow> high = length w \<Longrightarrow>
     sorted_wrt rowMajorLess (take start w) \<Longrightarrow>
     mset (binaryInsertionSort w start high) = mset w \<and>
     sorted_wrt rowMajorLess (binaryInsertionSort w start high)"
proof (induction w start high rule: binaryInsertionSort.induct)
  case (1 w start high)
  note loop = binaryInsertionSort.simps [of w start high]
  show ?case
  proof (cases "start < high")
    case False
    then have "binaryInsertionSort w start high = w" by (simp add: loop)
    moreover from False "1.prems" have "take start w = w" by simp
    ultimately show ?thesis using "1.prems"(4) by simp
  next
    case True
    with "1.prems" have start: "start < length w" by simp
    note step = insertPivot_spec [OF "1.prems"(1) start "1.prems"(4)]
    from step(1) have pos: "positioned (insertPivot w start)"
      using "1.prems"(1) positioned_mset by blast
    from step(1) have len: "high = length (insertPivot w start)"
      using "1.prems"(3) mset_eq_length by fastforce
    from True have le: "start + 1 \<le> high" by simp
    from "1.IH" [OF True pos le len step(2)] step(1) True show ?thesis
      by (simp add: loop)
  qed
qed

lemma countRun_spec:
  "idx \<le> high \<Longrightarrow>
     idx \<le> countRun d w idx high \<and> countRun d w idx high \<le> high \<and>
     (\<forall>i. idx \<le> i \<and> i < countRun d w idx high \<longrightarrow>
        (itemComparator (w ! i) (w ! (i - 1)) < 0) = d)"
proof (induction d w idx high rule: countRun.induct)
  case (1 d w idx high)
  note loop = countRun.simps [of d w idx high]
  show ?case
  proof (cases "idx < high")
    case False
    then have "countRun d w idx high = idx" by (simp add: loop)
    with "1.prems" show ?thesis by auto
  next
    case True
    define order where "order = itemComparator (w ! idx) (w ! (idx - 1))"
    show ?thesis
    proof (cases "if d then order \<ge> 0 else order < 0")
      case stop: True
      with True have "countRun d w idx high = idx"
        unfolding loop order_def Let_def by (cases d) simp_all
      with "1.prems" show ?thesis by auto
    next
      case go: False
      with True have eq: "countRun d w idx high = countRun d w (idx + 1) high"
        unfolding loop order_def Let_def by (cases d) simp_all
      from go have here: "(order < 0) = d" by (cases d) auto
      from True have "idx + 1 \<le> high" by simp
      from "1.IH" [OF True order_def go this]
      have ih: "idx + 1 \<le> countRun d w (idx + 1) high" "countRun d w (idx + 1) high \<le> high"
        "\<forall>i. idx + 1 \<le> i \<and> i < countRun d w (idx + 1) high \<longrightarrow>
           (itemComparator (w ! i) (w ! (i - 1)) < 0) = d"
        by blast+
      have "(itemComparator (w ! i) (w ! (i - 1)) < 0) = d"
        if "idx \<le> i" "i < countRun d w (idx + 1) high" for i
      proof (cases "i = idx")
        case True
        with here show ?thesis by (simp add: order_def)
      next
        case False
        with that have "idx + 1 \<le> i" by simp
        with ih(3) that show ?thesis by blast
      qed
      with ih(1,2) show ?thesis unfolding eq by auto
    qed
  qed
qed

lemma sortShortArray_spec:
  assumes pos: "positioned xs"
  shows "mset (sortShortArray xs) = mset xs \<and> sorted_wrt rowMajorLess (sortShortArray xs)"
proof (cases "length xs < 2")
  case True
  then have "length xs \<le> 1" by simp
  from sorted_wrt01 [OF this] True show ?thesis by (simp add: sortShortArray_def)
next
  case False
  define d where "d = (itemComparator (xs ! 1) (xs ! 0) < 0)"
  define r where "r = countRun d xs 2 (length xs)"
  define w where "w = (if d then rev (take r xs) @ drop r xs else xs)"
  from False have two: "2 \<le> length xs" by simp
  from countRun_spec [OF two, of d xs]
  have r: "2 \<le> r" "r \<le> length xs"
    and run: "\<forall>i. 2 \<le> i \<and> i < r \<longrightarrow> (itemComparator (xs ! i) (xs ! (i - 1)) < 0) = d"
    unfolding r_def by blast+
  have step: "(itemComparator (xs ! Suc i) (xs ! i) < 0) = d" if "Suc i < r" for i
  proof (cases "i = 0")
    case True
    then show ?thesis by (simp add: d_def)
  next
    case False
    with that run [rule_format, of "Suc i"] show ?thesis by simp
  qed
  have mset_w: "mset w = mset xs"
  proof (cases d)
    case True
    have "mset (rev (take r xs) @ drop r xs) = mset (take r xs @ drop r xs)"
      by (simp only: mset_append mset_rev)
    also have "\<dots> = mset xs" by (simp only: append_take_drop_id)
    finally show ?thesis using True by (simp only: w_def if_True)
  next
    case False
    then show ?thesis by (simp add: w_def)
  qed
  have pos_w: "positioned w" using pos positioned_mset [OF mset_w] by simp
  have len_w: "length w = length xs" using mset_w by (rule mset_eq_length)
  have sorted_run: "sorted_wrt rowMajorLess (take r w)"
  proof (cases d)
    case True
    have "rowMajorLess (xs ! Suc i) (xs ! i)" if "Suc i < r" for i
    proof -
      from that r have i: "Suc i < length xs" "i < length xs" by simp_all
      note facts = positioned_nth [OF pos i(1) i(2)]
      from step [OF that] True have "itemComparator (xs ! Suc i) (xs ! i) < 0" by simp
      with facts itemComparator_less [of "xs ! Suc i" "xs ! i"] show ?thesis by simp
    qed
    then have "\<forall>i. Suc i < length (take r xs) \<longrightarrow>
        rowMajorLess (take r xs ! Suc i) (take r xs ! i)"
      using r by simp
    then have "sorted_wrt (\<lambda>a b. rowMajorLess b a) (take r xs)"
      using sorted_wrt_iff_nth_Suc_transp [OF transp_rowMajorLess_conv, of "take r xs"] by simp
    then have "sorted_wrt rowMajorLess (rev (take r xs))" by (simp add: sorted_wrt_rev)
    moreover from True r have "take r w = rev (take r xs)" by (simp add: w_def)
    ultimately show ?thesis by simp
  next
    case notd: False
    have "rowMajorLess (xs ! i) (xs ! Suc i)" if "Suc i < r" for i
    proof -
      from that r have i: "Suc i < length xs" "i < length xs" by simp_all
      note facts = positioned_nth [OF pos i(1) i(2)]
      from step [OF that] notd have "\<not> itemComparator (xs ! Suc i) (xs ! i) < 0" by simp
      with facts itemComparator_not_less [of "xs ! Suc i" "xs ! i"] show ?thesis by simp
    qed
    then have "\<forall>i. Suc i < length (take r xs) \<longrightarrow>
        rowMajorLess (take r xs ! i) (take r xs ! Suc i)"
      using r by simp
    then have "sorted_wrt rowMajorLess (take r xs)"
      using sorted_wrt_iff_nth_Suc_transp [OF transp_rowMajorLess, of "take r xs"] by simp
    with notd show ?thesis by (simp add: w_def)
  qed
  from r len_w have le: "r \<le> length w" by simp
  from binaryInsertionSort_spec [OF pos_w le refl sorted_run] mset_w
  have "mset (binaryInsertionSort w r (length w)) = mset xs \<and>
        sorted_wrt rowMajorLess (binaryInsertionSort w r (length w))"
    by simp
  moreover have "sortShortArray xs = binaryInsertionSort w r (length w)"
    using False by (simp add: sortShortArray_def countAndMakeRun_def Let_def d_def r_def w_def)
  ultimately show ?thesis by simp
qed

lemma itemComparator_sign: "\<not> itemComparator a b > 0 \<Longrightarrow> itemComparator a b < 0"
  by (auto simp: itemComparator_def split: option.splits)

lemma sortShortArray_ascending:
  assumes "ordersItems xs"
  shows "sortShortArray xs = foldr insertItem xs []"
proof (cases "length xs \<le> 1")
  case True
  then have "sortShortArray xs = xs" by (simp add: sortShortArray_def)
  moreover from True have "foldr insertItem xs [] = xs"
    by (cases xs) (auto simp: le_Suc_eq)
  ultimately show ?thesis by simp
next
  case False
  with assms have pos: "positioned xs" by (simp add: ordersItems_def positioned_def)
  define zs where "zs = foldr insertItem xs []"
  have mz: "mset zs = mset xs" by (simp add: zs_def mset_foldr_insertItem)
  with pos have pz: "positioned zs" using positioned_mset by blast
  have "rowMajorLess (zs ! i) (zs ! Suc i)" if "Suc i < length zs" for i
  proof -
    from that have i: "i < length zs" by simp
    note facts = positioned_nth [OF pz i that]
    have "successively (\<lambda>a b. \<not> itemComparator a b > 0) zs"
      unfolding zs_def by (rule successively_foldr_insertItem)
    then have "\<not> itemComparator (zs ! i) (zs ! Suc i) > 0"
      using that by (simp add: successively_conv_nth)
    then have "itemComparator (zs ! i) (zs ! Suc i) < 0" by (rule itemComparator_sign)
    with facts itemComparator_less [of "zs ! i" "zs ! Suc i"] show ?thesis by simp
  qed
  then have sz: "sorted_wrt rowMajorLess zs"
    using sorted_wrt_iff_nth_Suc_transp [OF transp_rowMajorLess, of zs] by simp
  from sortShortArray_spec [OF pos] mz
  have "sorted_wrt rowMajorLess (sortShortArray xs)" "set (sortShortArray xs) = set zs"
    by (auto dest: mset_eq_setD)
  from sorted_wrt_rowMajorLess_unique [OF this(1) sz this(2)] show ?thesis by (simp add: zs_def)
qed

lemma sortItems_short: "length xs < 64 \<Longrightarrow> sortItems xs = Inr (sortShortArray xs)"
  by (simp add: sortItems_def sortShortArray_ascending)

section \<open>What \<^verbatim>\<open>transformItems\<close> writes (C4, C5)\<close>

lemma set_settingRefs: "set (settingRefs item) = {a. \<exists>name. getSetting name item = Some a}"
proof -
  have "(\<exists>name. getSetting name item = Some a) =
          (itemColumnOffset item = Some a \<or> itemColumnSpan item = Some a \<or> itemRowSpan item = Some a)" for a
    by (metis getSetting.simps settingName.exhaust)
  then show ?thesis
    by (auto simp: settingRefs_def split: option.splits)
qed

lemma readSetting_Some: "readSetting st (Some a) k = (if a < length st then (st ! a) k else None)"
  by (simp add: readSetting_def)

lemma length_writeSetting [simp]: "length (writeSetting st r layout v) = length st"
  by (simp add: writeSetting_def split: option.splits)

lemma readSetting_writeSetting:
  "readSetting (writeSetting st r layout v) (Some a) k =
     (if a = r \<and> r < length st \<and> layout = Some k then Some v else readSetting st (Some a) k)"
proof (cases "r < length st")
  case True
  then show ?thesis
    by (auto simp: writeSetting_def readSetting_def nth_list_update split: option.splits)
next
  case False
  then show ?thesis
    by (auto simp: writeSetting_def readSetting_def split: option.splits)
qed

lemma getSetting_setSetting:
  "getSetting m (setSetting name r item) = (if m = name then r else getSetting m item)"
  by (cases m; cases name) auto

lemma setSetting_fields [simp]:
  "itemId (setSetting name r item) = itemId item"
  "itemDefinition (setSetting name r item) = itemDefinition item"
  "itemData (setSetting name r item) = itemData item"
  by (cases name; simp)+

lemma writeItemSetting_spec:
  assumes w: "writeItemSetting (st, item) name layout v = (st1, item1)"
    and wf: "\<forall>a. getSetting name item = Some a \<longrightarrow> a < length st"
  shows "length st \<le> length st1"
    and "\<exists>r. getSetting name item1 = Some r \<and> r < length st1 \<and>
           (case getSetting name item of None \<Rightarrow> r = length st | Some a \<Rightarrow> r = a)"
    and "\<And>m. m \<noteq> name \<Longrightarrow> getSetting m item1 = getSetting m item"
    and "\<And>a k. readSetting st1 (Some a) k =
           (if getSetting name item1 = Some a \<and> layout = Some k then Some v
            else readSetting st (Some a) k)"
    and "itemId item1 = itemId item \<and> itemDefinition item1 = itemDefinition item \<and>
         itemData item1 = itemData item"
proof -
  show "length st \<le> length st1"
    using w by (auto simp: writeItemSetting_def split: option.splits)
  show "\<exists>r. getSetting name item1 = Some r \<and> r < length st1 \<and>
           (case getSetting name item of None \<Rightarrow> r = length st | Some a \<Rightarrow> r = a)"
    using w wf by (auto simp: writeItemSetting_def getSetting_setSetting split: option.splits)
  show "getSetting m item1 = getSetting m item" if "m \<noteq> name" for m
    using w that by (auto simp: writeItemSetting_def getSetting_setSetting split: option.splits)
  show "readSetting st1 (Some a) k =
           (if getSetting name item1 = Some a \<and> layout = Some k then Some v
            else readSetting st (Some a) k)" for a k
  proof (cases "getSetting name item")
    case None
    with w have st1: "st1 = writeSetting (st @ [Map.empty]) (length st) layout v"
      and i1: "getSetting name item1 = Some (length st)"
      by (auto simp: writeItemSetting_def getSetting_setSetting)
    show ?thesis
      unfolding st1 i1 readSetting_writeSetting
      by (auto simp: readSetting_def nth_append)
  next
    case (Some r)
    with w have st1: "st1 = writeSetting st r layout v" and i1: "getSetting name item1 = Some r"
      by (auto simp: writeItemSetting_def)
    from wf Some show ?thesis
      unfolding st1 i1 readSetting_writeSetting by auto
  qed
  show "itemId item1 = itemId item \<and> itemDefinition item1 = itemDefinition item \<and>
         itemData item1 = itemData item"
    using w by (auto simp: writeItemSetting_def split: option.splits)
qed


lemma transformItem_spec:
  assumes t: "transformItem changeFrom columns rows index l source st = (st', item)"
    and wf: "\<forall>name a. getSetting name source = Some a \<longrightarrow> a < length st"
  shows "length st \<le> length st'"
    and "itemId item = itemId source \<and> itemDefinition item = itemDefinition source \<and>
         itemData item = itemData source"
    and "\<exists>ro rs rr.
           itemColumnOffset item = Some ro \<and> itemColumnSpan item = Some rs \<and>
           itemRowSpan item = Some rr \<and> ro < length st' \<and> rs < length st' \<and> rr < length st' \<and>
           (if changeFrom \<le> index \<or> itemColumnOffset source = None then ro = length st
            else itemColumnOffset source = Some ro) \<and>
           (if itemColumnSpan source = None then length st \<le> rs \<and> rs \<noteq> ro
            else itemColumnSpan source = Some rs) \<and>
           (if itemRowSpan source = None then length st \<le> rr \<and> rr \<noteq> ro \<and> rr \<noteq> rs
            else itemRowSpan source = Some rr)"
    and "\<And>a k. readSetting st' (Some a) k =
           (if itemRowSpan item = Some a \<and> rows = Some k then Some (gHeight l)
            else if itemColumnSpan item = Some a \<and> k = columns then Some (gWidth l)
            else if itemColumnOffset item = Some a \<and> k = columns then Some (gX l)
            else readSetting st (Some a) k)"
proof -
  define item0 where
    "item0 = (if index \<ge> changeFrom then source\<lparr> itemColumnOffset := None \<rparr> else source)"
  obtain st1 item1 where s1: "writeItemSetting (st, item0) ColumnOffset (Some columns) (gX l) = (st1, item1)"
    by (cases "writeItemSetting (st, item0) ColumnOffset (Some columns) (gX l)")
  obtain st2 item2 where s2: "writeItemSetting (st1, item1) ColumnSpan (Some columns) (gWidth l) = (st2, item2)"
    by (cases "writeItemSetting (st1, item1) ColumnSpan (Some columns) (gWidth l)")
  have s3: "writeItemSetting (st2, item2) RowSpan rows (gHeight l) = (st', item)"
    using t s1 s2 by (simp add: transformItem_def Let_def item0_def)
  have f0: "itemColumnOffset item0 =
              (if changeFrom \<le> index then None else itemColumnOffset source)"
    "itemColumnSpan item0 = itemColumnSpan source" "itemRowSpan item0 = itemRowSpan source"
    "itemId item0 = itemId source" "itemDefinition item0 = itemDefinition source"
    "itemData item0 = itemData source"
    by (simp_all add: item0_def)
  have wfo: "\<forall>a. itemColumnOffset source = Some a \<longrightarrow> a < length st"
    using wf [rule_format, of ColumnOffset] by simp
  have wfc: "\<forall>a. itemColumnSpan source = Some a \<longrightarrow> a < length st"
    using wf [rule_format, of ColumnSpan] by simp
  have wfr: "\<forall>a. itemRowSpan source = Some a \<longrightarrow> a < length st"
    using wf [rule_format, of RowSpan] by simp
  have wf0: "\<forall>a. getSetting ColumnOffset item0 = Some a \<longrightarrow> a < length st"
    using wfo by (auto simp: f0 split: if_splits)
  note w1 = writeItemSetting_spec [OF s1 wf0]
  have wf1: "\<forall>a. getSetting ColumnSpan item1 = Some a \<longrightarrow> a < length st1"
  proof (intro allI impI)
    fix a assume "getSetting ColumnSpan item1 = Some a"
    with w1(3) [of ColumnSpan] have "itemColumnSpan source = Some a" by (simp add: f0)
    with wfc w1(1) show "a < length st1" by fastforce
  qed
  note w2 = writeItemSetting_spec [OF s2 wf1]
  have wf2: "\<forall>a. getSetting RowSpan item2 = Some a \<longrightarrow> a < length st2"
  proof (intro allI impI)
    fix a assume "getSetting RowSpan item2 = Some a"
    with w2(3) [of RowSpan] w1(3) [of RowSpan] have "itemRowSpan source = Some a" by (simp add: f0)
    with wfr w1(1) w2(1) show "a < length st2" by fastforce
  qed
  note w3 = writeItemSetting_spec [OF s3 wf2]
  show "length st \<le> length st'"
    using w1(1) w2(1) w3(1) by simp
  show "itemId item = itemId source \<and> itemDefinition item = itemDefinition source \<and>
         itemData item = itemData source"
    using w1(5) w2(5) w3(5) by (simp add: f0)
  from w1(2) obtain ro where ro: "itemColumnOffset item1 = Some ro" "ro < length st1"
    and roc: "case itemColumnOffset item0 of None \<Rightarrow> ro = length st | Some a \<Rightarrow> ro = a"
    by auto
  have ro3: "if changeFrom \<le> index \<or> itemColumnOffset source = None then ro = length st
     else itemColumnOffset source = Some ro"
    using roc by (cases "itemColumnOffset source"; cases "changeFrom \<le> index") (simp_all add: f0)
  from w2(2) obtain rs where rs: "itemColumnSpan item2 = Some rs" "rs < length st2"
    and rsc: "case itemColumnSpan item1 of None \<Rightarrow> rs = length st1 | Some a \<Rightarrow> rs = a"
    by auto
  have sp1: "itemColumnSpan item1 = itemColumnSpan source"
    using w1(3) [of ColumnSpan] by (simp add: f0)
  have rs3: "if itemColumnSpan source = None then rs = length st1 else itemColumnSpan source = Some rs"
    using rsc by (cases "itemColumnSpan source") (auto simp: sp1)
  from w3(2) obtain rr where rr: "itemRowSpan item = Some rr" "rr < length st'"
    and rrc: "case itemRowSpan item2 of None \<Rightarrow> rr = length st2 | Some a \<Rightarrow> rr = a"
    by auto
  have r2: "itemRowSpan item2 = itemRowSpan source"
    using w2(3) [of RowSpan] w1(3) [of RowSpan] by (simp add: f0)
  have rr3: "if itemRowSpan source = None then rr = length st2 else itemRowSpan source = Some rr"
    using rrc by (cases "itemRowSpan source") (auto simp: r2)
  have o2: "itemColumnOffset item2 = Some ro" using w2(3) [of ColumnOffset] ro(1) by simp
  have o3: "itemColumnOffset item = Some ro" using w3(3) [of ColumnOffset] o2 by simp
  have sp3: "itemColumnSpan item = Some rs" using w3(3) [of ColumnSpan] rs(1) by simp
  have "ro < length st'" "rs < length st'"
    using ro(2) rs(2) w2(1) w3(1) by simp_all
  moreover have "if itemColumnSpan source = None then length st \<le> rs \<and> rs \<noteq> ro
                 else itemColumnSpan source = Some rs"
    using rs3 ro(2) w1(1) by (auto split: if_splits)
  moreover have "if itemRowSpan source = None then length st \<le> rr \<and> rr \<noteq> ro \<and> rr \<noteq> rs
                 else itemRowSpan source = Some rr"
    using rr3 ro(2) rs(2) w1(1) w2(1) by (auto split: if_splits)
  ultimately show "\<exists>ro rs rr.
           itemColumnOffset item = Some ro \<and> itemColumnSpan item = Some rs \<and>
           itemRowSpan item = Some rr \<and> ro < length st' \<and> rs < length st' \<and> rr < length st' \<and>
           (if changeFrom \<le> index \<or> itemColumnOffset source = None then ro = length st
            else itemColumnOffset source = Some ro) \<and>
           (if itemColumnSpan source = None then length st \<le> rs \<and> rs \<noteq> ro
            else itemColumnSpan source = Some rs) \<and>
           (if itemRowSpan source = None then length st \<le> rr \<and> rr \<noteq> ro \<and> rr \<noteq> rs
            else itemRowSpan source = Some rr)"
    using o3 sp3 rr(1,2) ro3 by blast
  show "readSetting st' (Some a) k =
           (if itemRowSpan item = Some a \<and> rows = Some k then Some (gHeight l)
            else if itemColumnSpan item = Some a \<and> k = columns then Some (gWidth l)
            else if itemColumnOffset item = Some a \<and> k = columns then Some (gX l)
            else readSetting st (Some a) k)" for a k
    using w3(4) [of a k] w2(4) [of a k] w1(4) [of a k] o3 sp3 rr(1) rs(1) ro(1)
    by auto
qed

lemma transformItems_loop_append:
  "transformItems_loop byId changeFrom columns rows (pre @ post) index st acc =
     (case transformItems_loop byId changeFrom columns rows pre index st acc of
        Inl e \<Rightarrow> Inl e
      | Inr (st1, acc1) \<Rightarrow>
          transformItems_loop byId changeFrom columns rows post (index + int (length pre)) st1 acc1)"
proof (induction pre arbitrary: index st acc)
  case Nil
  then show ?case by simp
next
  case (Cons l pre)
  show ?case
  proof (cases "getItem byId (gId l)")
    case (Inl e)
    then show ?thesis by simp
  next
    case (Inr source)
    obtain st1 item where step: "transformItem changeFrom columns rows index l source st = (st1, item)"
      by (cases "transformItem changeFrom columns rows index l source st")
    have "index + int (length (l # pre)) = index + 1 + int (length pre)" by simp
    with Cons.IH [of "index + 1" st1 "acc @ [item]"] Inr step show ?thesis
      by (simp only: append_Cons transformItems_loop.simps sum.case prod.case)
  qed
qed

lemma transformItems_loop_result:
  assumes "transformItems_loop byId changeFrom columns rows ls index st acc = Inr (st', items')"
  shows "\<exists>new. items' = acc @ new \<and> length new = length ls"
  using assms
proof (induction ls arbitrary: index st acc)
  case Nil
  then show ?case by simp
next
  case (Cons l ls)
  from Cons.prems obtain source where source: "getItem byId (gId l) = Inr source"
    by (cases "getItem byId (gId l)") auto
  obtain st1 item where step: "transformItem changeFrom columns rows index l source st = (st1, item)"
    by (cases "transformItem changeFrom columns rows index l source st")
  from Cons.prems source step
  have "transformItems_loop byId changeFrom columns rows ls (index + 1) st1 (acc @ [item]) =
          Inr (st', items')"
    by simp
  from Cons.IH [OF this] obtain new where "items' = (acc @ [item]) @ new" "length new = length ls"
    by blast
  then have "items' = acc @ (item # new) \<and> length (item # new) = length (l # ls)" by simp
  then show ?case by blast
qed

lemma transformItems_loop_frame:
  assumes run: "transformItems_loop byId changeFrom columns rows ls index st acc = Inr (st', items')"
    and wf: "\<forall>i source name a. byId i = Some source \<longrightarrow> getSetting name source = Some a \<longrightarrow> a < length st"
  shows "length st \<le> length st' \<and>
         (\<forall>a k. readSetting st' (Some a) k \<noteq> readSetting st (Some a) k \<longrightarrow>
           length st \<le> a \<or>
           (\<exists>l \<in> set ls. \<exists>source. byId (gId l) = Some source \<and> hits columns rows source a k))"
  using run wf
proof (induction ls arbitrary: index st acc)
  case Nil
  then show ?case by simp
next
  case (Cons l ls)
  from Cons.prems(1) obtain source where source: "byId (gId l) = Some source"
    by (auto simp: getItem_def split: option.splits)
  obtain st1 item where step: "transformItem changeFrom columns rows index l source st = (st1, item)"
    by (cases "transformItem changeFrom columns rows index l source st")
  from Cons.prems(1) source step
  have rest: "transformItems_loop byId changeFrom columns rows ls (index + 1) st1 (acc @ [item]) =
          Inr (st', items')"
    by (simp add: getItem_def)
  have wfs: "\<forall>name a. getSetting name source = Some a \<longrightarrow> a < length st"
    using Cons.prems(2) source by blast
  note spec = transformItem_spec [OF step wfs]
  have wf1: "\<forall>i source name a. byId i = Some source \<longrightarrow> getSetting name source = Some a \<longrightarrow> a < length st1"
    using Cons.prems(2) spec(1) by fastforce
  from Cons.IH [OF rest wf1]
  have ih1: "length st1 \<le> length st'"
    and ih2: "\<And>a k. readSetting st' (Some a) k \<noteq> readSetting st1 (Some a) k \<Longrightarrow>
           length st1 \<le> a \<or>
           (\<exists>l \<in> set ls. \<exists>source. byId (gId l) = Some source \<and> hits columns rows source a k)"
    by blast+
  have "length st \<le> a \<or>
        (\<exists>l \<in> set (l # ls). \<exists>source. byId (gId l) = Some source \<and> hits columns rows source a k)"
    if changed: "readSetting st' (Some a) k \<noteq> readSetting st (Some a) k" for a k
  proof (cases "length st \<le> a")
    case True
    then show ?thesis by simp
  next
    case inside: False
    show ?thesis
    proof (cases "readSetting st1 (Some a) k = readSetting st (Some a) k")
      case True
      with changed have "readSetting st' (Some a) k \<noteq> readSetting st1 (Some a) k" by simp
      from ih2 [OF this] inside spec(1) show ?thesis by auto
    next
      case False
      with spec(4) [of a k]
      have hit: "(itemRowSpan item = Some a \<and> rows = Some k) \<or>
                 (itemColumnSpan item = Some a \<and> k = columns) \<or>
                 (itemColumnOffset item = Some a \<and> k = columns)"
        by (auto split: if_splits)
      from spec(3) inside hit have "hits columns rows source a k"
        by (auto simp: hits_def split: if_splits)
      with source show ?thesis by auto
    qed
  qed
  with ih1 spec(1) show ?case by auto
qed

lemma transformItems_loop_nth:
  assumes run: "transformItems_loop byId changeFrom columns rows ls 0 st [] = Inr (st', items')"
    and wf: "\<forall>i source name a. byId i = Some source \<longrightarrow> getSetting name source = Some a \<longrightarrow> a < length st"
    and i: "i < length ls"
  shows "\<exists>st1 st2 source.
           byId (gId (ls ! i)) = Some source \<and>
           transformItem changeFrom columns rows (int i) (ls ! i) source st1 = (st2, items' ! i) \<and>
           length st \<le> length st1 \<and>
           (\<forall>a k. readSetting st1 (Some a) k \<noteq> readSetting st (Some a) k \<longrightarrow>
              length st \<le> a \<or>
              (\<exists>l \<in> set (take i ls). \<exists>src. byId (gId l) = Some src \<and> hits columns rows src a k)) \<and>
           (\<forall>a k. readSetting st' (Some a) k \<noteq> readSetting st2 (Some a) k \<longrightarrow>
              length st2 \<le> a \<or>
              (\<exists>l \<in> set (drop (Suc i) ls). \<exists>src. byId (gId l) = Some src \<and> hits columns rows src a k))"
proof -
  define pre where "pre = take i ls"
  define post where "post = drop (Suc i) ls"
  have ls: "ls = pre @ (ls ! i) # post"
    using i by (simp add: pre_def post_def id_take_nth_drop)
  have lpre: "length pre = i" using i by (simp add: pre_def)
  from run obtain st1 acc1 where
    r1: "transformItems_loop byId changeFrom columns rows pre 0 st [] = Inr (st1, acc1)"
    and r2: "transformItems_loop byId changeFrom columns rows ((ls ! i) # post) (int i) st1 acc1 =
               Inr (st', items')"
    using transformItems_loop_append [of byId changeFrom columns rows pre "(ls ! i) # post" 0 st "[]"]
    by (subst (asm) ls) (auto simp: lpre split: sum.splits)
  from r2 obtain source where source: "byId (gId (ls ! i)) = Some source"
    by (auto simp: getItem_def split: option.splits)
  obtain st2 item where step: "transformItem changeFrom columns rows (int i) (ls ! i) source st1 = (st2, item)"
    by (cases "transformItem changeFrom columns rows (int i) (ls ! i) source st1")
  from r2 source step
  have r3: "transformItems_loop byId changeFrom columns rows post (int i + 1) st2 (acc1 @ [item]) =
              Inr (st', items')"
    by (simp add: getItem_def)
  from transformItems_loop_result [OF r1] lpre have acc1: "length acc1 = i" by auto
  from transformItems_loop_result [OF r3] obtain new where "items' = (acc1 @ [item]) @ new"
    by blast
  with acc1 have item: "items' ! i = item" by (simp add: nth_append)
  note f1 = transformItems_loop_frame [OF r1 wf]
  have wf1: "\<forall>i source name a. byId i = Some source \<longrightarrow> getSetting name source = Some a \<longrightarrow> a < length st1"
    using wf f1 by fastforce
  have wfs: "\<forall>name a. getSetting name source = Some a \<longrightarrow> a < length st1"
    using wf1 source by blast
  have wf2: "\<forall>i source name a. byId i = Some source \<longrightarrow> getSetting name source = Some a \<longrightarrow> a < length st2"
    using wf1 transformItem_spec(1) [OF step wfs] by fastforce
  note f3 = transformItems_loop_frame [OF r3 wf2]
  from source step item f1 f3 show ?thesis
    unfolding pre_def post_def by blast
qed

lemma unshared_Cons:
  "unshared (x # xs) =
     (distinct (settingRefs x) \<and> unshared xs \<and>
      (\<forall>y \<in> set xs. set (settingRefs x) \<inter> set (settingRefs y) = {}))"
  by (auto simp: unshared_def)

lemma distinct_settingRefs:
  assumes "distinct (settingRefs x)" and "getSetting n x = Some a" and "getSetting m x = Some a"
  shows "n = m"
  using assms by (cases n; cases m) (auto simp: settingRefs_def split: option.splits)

lemma unshared_same:
  assumes "unshared items" and "s \<in> set items" and "t \<in> set items"
    and "getSetting n s = Some a" and "getSetting m t = Some a"
  shows "n = m \<and> s = t"
  using assms
proof (induction items)
  case Nil
  then show ?case by simp
next
  case (Cons x xs)
  from Cons.prems(1) have d: "distinct (settingRefs x)" and u: "unshared xs"
    and apart: "\<And>y. y \<in> set xs \<Longrightarrow> set (settingRefs x) \<inter> set (settingRefs y) = {}"
    by (auto simp: unshared_Cons)
  have ins: "a \<in> set (settingRefs s)" and int: "a \<in> set (settingRefs t)"
    using Cons.prems(4,5) by (auto simp: set_settingRefs)
  show ?case
  proof (cases "s = x")
    case sx: True
    show ?thesis
    proof (cases "t = x")
      case True
      with sx d Cons.prems(4,5) distinct_settingRefs [of x n a m] show ?thesis by simp
    next
      case False
      with Cons.prems(3) have "t \<in> set xs" by simp
      from apart [OF this] ins int sx show ?thesis by auto
    qed
  next
    case False
    with Cons.prems(2) have s: "s \<in> set xs" by simp
    show ?thesis
    proof (cases "t = x")
      case True
      from apart [OF s] ins int True show ?thesis by auto
    next
      case False
      with Cons.prems(3) have "t \<in> set xs" by simp
      from Cons.IH [OF u s this Cons.prems(4,5)] show ?thesis .
    qed
  qed
qed

lemma allocated_refs:
  assumes "allocated st items" and "s \<in> set items" and "getSetting n s = Some a"
  shows "a < length st"
proof -
  from assms(3) have "a \<in> set (settingRefs s)" by (auto simp: set_settingRefs)
  with assms(1,2) show ?thesis by (auto simp: allocated_def list_all_iff)
qed

lemma findIndex_loop_spec:
  assumes "findIndex_loop ss ls i = Inr r" and "0 \<le> i"
  shows "(r = - 1 \<and> length ls \<le> length ss \<and> (\<forall>j<length ls. itemId (ss ! j) = gId (ls ! j))) \<or>
         (i \<le> r \<and> nat (r - i) < length ls \<and> nat (r - i) < length ss \<and>
          itemId (ss ! nat (r - i)) \<noteq> gId (ls ! nat (r - i)) \<and>
          (\<forall>j<nat (r - i). itemId (ss ! j) = gId (ls ! j)))"
  using assms
proof (induction ss ls i rule: findIndex_loop.induct)
  case (1 sourceItems index)
  then show ?case by simp
next
  case (2 l ls index)
  then show ?case by simp
next
  case (3 s ss l ls index)
  show ?case
  proof (cases "itemId s = gId l")
    case False
    with "3.prems" have "r = index" by simp
    with False show ?thesis by simp
  next
    case True
    with "3.prems" have rest: "findIndex_loop ss ls (index + 1) = Inr r" by simp
    from "3.IH" [OF _ rest] True "3.prems"(2)
    consider (none) "r = - 1" "length ls \<le> length ss" "\<forall>j<length ls. itemId (ss ! j) = gId (ls ! j)"
      | (found) "index + 1 \<le> r" "nat (r - (index + 1)) < length ls" "nat (r - (index + 1)) < length ss"
          "itemId (ss ! nat (r - (index + 1))) \<noteq> gId (ls ! nat (r - (index + 1)))"
          "\<forall>j<nat (r - (index + 1)). itemId (ss ! j) = gId (ls ! j)"
      by auto
    then show ?thesis
    proof cases
      case none
      have "\<forall>j<length (l # ls). itemId ((s # ss) ! j) = gId ((l # ls) ! j)"
        using none(3) True by (auto simp: nth_Cons split: nat.splits)
      with none show ?thesis by simp
    next
      case found
      have n: "nat (r - index) = Suc (nat (r - (index + 1)))" using found(1) by simp
      have "\<forall>j<nat (r - index). itemId ((s # ss) ! j) = gId ((l # ls) ! j)"
        unfolding n using found(5) True by (auto simp: nth_Cons split: nat.splits)
      with found show ?thesis unfolding n by simp
    qed
  qed
qed

lemma changeFromIndex_spec:
  assumes "changeFromIndex sourceItems sortedLayout = Inr changeFrom"
  shows "if \<forall>i<length sortedLayout. itemId (sourceItems ! i) = gId (sortedLayout ! i)
         then changeFrom = int (length sortedLayout) - 1
         else 0 \<le> changeFrom \<and> nat changeFrom < length sortedLayout \<and>
              itemId (sourceItems ! nat changeFrom) \<noteq> gId (sortedLayout ! nat changeFrom) \<and>
              (\<forall>i<nat changeFrom. itemId (sourceItems ! i) = gId (sortedLayout ! i))"
proof -
  from assms obtain found where found: "findIndex_loop sourceItems sortedLayout 0 = Inr found"
    and cf: "changeFrom = (if found \<noteq> - 1 then found else int (length sortedLayout) - 1)"
    by (auto simp: changeFromIndex_def split: sum.splits)
  from findIndex_loop_spec [OF found] show ?thesis
    unfolding cf by auto
qed

lemma transformItems_loop_item:
  assumes run: "transformItems_loop (itemById sourceItems) changeFrom columns rows ls 0 st [] =
                  Inr (st', items')"
    and alloc: "allocated st sourceItems"
    and unsh: "unshared sourceItems"
    and i: "i < length ls"
  shows "\<exists>source.
           itemById sourceItems (gId (ls ! i)) = Some source \<and>
           itemId (items' ! i) = gId (ls ! i) \<and>
           (\<forall>k. k \<noteq> columns \<longrightarrow>
              readSetting st' (itemColumnOffset (items' ! i)) k =
                (if changeFrom \<le> int i then None else readSetting st (itemColumnOffset source) k)) \<and>
           (\<forall>k. k \<noteq> columns \<longrightarrow>
              readSetting st' (itemColumnSpan (items' ! i)) k = readSetting st (itemColumnSpan source) k) \<and>
           (changeFrom \<le> int i \<longrightarrow>
              readSetting st' (itemColumnOffset (items' ! i)) columns = Some (gX (ls ! i))) \<and>
           (distinct (map gId ls) \<longrightarrow>
              readSetting st' (itemColumnOffset (items' ! i)) columns = Some (gX (ls ! i)) \<and>
              readSetting st' (itemColumnSpan (items' ! i)) columns = Some (gWidth (ls ! i)))"
proof -
  let ?byId = "itemById sourceItems"
  have mem: "\<And>j src. ?byId j = Some src \<Longrightarrow> src \<in> set sourceItems \<and> itemId src = j"
    using itemById_Some by blast
  have wf: "\<forall>j src name a. ?byId j = Some src \<longrightarrow> getSetting name src = Some a \<longrightarrow> a < length st"
    using mem allocated_refs [OF alloc] by blast
  from transformItems_loop_nth [OF run wf i]
  obtain st1 st2 source where source: "?byId (gId (ls ! i)) = Some source"
    and step: "transformItem changeFrom columns rows (int i) (ls ! i) source st1 = (st2, items' ! i)"
    and len1: "length st \<le> length st1"
    and pre: "\<And>a k. readSetting st1 (Some a) k \<noteq> readSetting st (Some a) k \<Longrightarrow>
              length st \<le> a \<or>
              (\<exists>l \<in> set (take i ls). \<exists>src. ?byId (gId l) = Some src \<and> hits columns rows src a k)"
    and post: "\<And>a k. readSetting st' (Some a) k \<noteq> readSetting st2 (Some a) k \<Longrightarrow>
              length st2 \<le> a \<or>
              (\<exists>l \<in> set (drop (Suc i) ls). \<exists>src. ?byId (gId l) = Some src \<and> hits columns rows src a k)"
    by blast
  define item where "item = items' ! i"
  note step = step [folded item_def]
  from mem [OF source] have smem: "source \<in> set sourceItems" and sid: "itemId source = gId (ls ! i)"
    by simp_all
  have below: "\<And>src name a. src \<in> set sourceItems \<Longrightarrow> getSetting name src = Some a \<Longrightarrow> a < length st"
    using allocated_refs [OF alloc] by blast
  have wfs: "\<forall>name a. getSetting name source = Some a \<longrightarrow> a < length st1"
    using below [OF smem] len1 by fastforce
  note spec = transformItem_spec [OF step wfs]
  from spec(3) obtain ro rs rr where
    refs: "itemColumnOffset item = Some ro" "itemColumnSpan item = Some rs" "itemRowSpan item = Some rr"
      "ro < length st2" "rs < length st2" "rr < length st2"
    and ro: "if changeFrom \<le> int i \<or> itemColumnOffset source = None then ro = length st1
             else itemColumnOffset source = Some ro"
    and rs: "if itemColumnSpan source = None then length st1 \<le> rs \<and> rs \<noteq> ro
             else itemColumnSpan source = Some rs"
    and rr: "if itemRowSpan source = None then length st1 \<le> rr \<and> rr \<noteq> ro \<and> rr \<noteq> rs
             else itemRowSpan source = Some rr"
    by blast
  note same = unshared_same [OF unsh]
  \<comment> \<open>the three references of the new item are different\<close>
  have ro_rs: "ro \<noteq> rs"
  proof
    assume e: "ro = rs"
    with rs have span: "itemColumnSpan source = Some ro" by (auto split: if_splits)
    then have "ro < length st" using below [OF smem, of ColumnSpan ro] by simp
    with ro len1 have "itemColumnOffset source = Some ro" by (auto split: if_splits)
    with same [OF smem smem, of ColumnOffset ro ColumnSpan] span show False by simp
  qed
  have rr_ro: "rr \<noteq> ro"
  proof
    assume e: "rr = ro"
    with rr have row: "itemRowSpan source = Some ro" by (auto split: if_splits)
    then have "ro < length st" using below [OF smem, of RowSpan ro] by simp
    with ro len1 have "itemColumnOffset source = Some ro" by (auto split: if_splits)
    with same [OF smem smem, of ColumnOffset ro RowSpan] row show False by simp
  qed
  have rr_rs: "rr \<noteq> rs"
  proof
    assume e: "rr = rs"
    with rr have row: "itemRowSpan source = Some rs" by (auto split: if_splits)
    then have "rs < length st" using below [OF smem, of RowSpan rs] by simp
    with rs len1 have "itemColumnSpan source = Some rs" by (auto split: if_splits)
    with same [OF smem smem, of ColumnSpan rs RowSpan] row show False by simp
  qed
  \<comment> \<open>the store right after this round\<close>
  have now_ro: "readSetting st2 (Some ro) k =
      (if k = columns then Some (gX (ls ! i)) else readSetting st1 (Some ro) k)" for k
    using spec(4) [of ro k] refs rr_ro ro_rs by auto
  have now_rs: "readSetting st2 (Some rs) k =
      (if k = columns then Some (gWidth (ls ! i)) else readSetting st1 (Some rs) k)" for k
    using spec(4) [of rs k] refs rr_rs ro_rs by auto
  \<comment> \<open>a reference made in this round is not touched by another round\<close>
  have fresh_later: "readSetting st' (Some a) k = readSetting st2 (Some a) k"
    if "length st1 \<le> a" "a < length st2" for a k
  proof (rule ccontr)
    assume "readSetting st' (Some a) k \<noteq> readSetting st2 (Some a) k"
    from post [OF this] that(2)
    obtain l :: GridLayoutItem and src where "?byId (gId l) = Some src" "hits columns rows src a k"
      by auto
    then obtain name where "src \<in> set sourceItems" "getSetting name src = Some a"
      using mem by (auto simp: hits_def) (metis getSetting.simps)+
    from below [OF this] that(1) len1 show False by simp
  qed
  have fresh_before: "readSetting st1 (Some a) k = None" if "length st1 \<le> a" for a k
    using that by (simp add: readSetting_Some)
  \<comment> \<open>a setting of the source item is written by other rounds only for the same item\<close>
  have kept_later: "readSetting st' (Some a) k = readSetting st2 (Some a) k"
    if a: "getSetting name source = Some a"
      and k: "k \<noteq> columns \<and> name \<noteq> RowSpan \<or> distinct (map gId ls)" for a k name
  proof (rule ccontr)
    assume "readSetting st' (Some a) k \<noteq> readSetting st2 (Some a) k"
    moreover have "a < length st2"
      using below [OF smem a] len1 spec(1) by simp
    ultimately obtain l src where l: "l \<in> set (drop (Suc i) ls)" and src: "?byId (gId l) = Some src"
      and hit: "hits columns rows src a k"
      using post [of a k] by auto
    from hit consider (col) "k = columns" "getSetting ColumnOffset src = Some a \<or> getSetting ColumnSpan src = Some a"
      | (row) "getSetting RowSpan src = Some a"
      by (auto simp: hits_def)
    then have "src = source \<and> (k = columns \<or> name = RowSpan)"
    proof cases
      case col
      with same [OF smem _ a] mem [OF src] show ?thesis by blast
    next
      case row
      with same [OF smem _ a row] mem [OF src] show ?thesis by blast
    qed
    with k have d: "distinct (map gId ls)" and same_item: "src = source" by auto
    from l obtain n where n: "n < length ls - Suc i" "ls ! (Suc i + n) = l"
      by (auto simp: in_set_conv_nth)
    define j where "j = Suc i + n"
    have j: "Suc i \<le> j" "j < length ls" "ls ! j = l"
      using n by (simp_all add: j_def)
    from mem [OF src] same_item sid have "gId (ls ! j) = gId (ls ! i)" by (simp add: j)
    with d j i show False by (auto simp: distinct_conv_nth)
  qed
  have kept_before: "readSetting st1 (Some a) k = readSetting st (Some a) k"
    if a: "getSetting name source = Some a"
      and k: "k \<noteq> columns \<and> name \<noteq> RowSpan \<or> distinct (map gId ls)" for a k name
  proof (rule ccontr)
    assume "readSetting st1 (Some a) k \<noteq> readSetting st (Some a) k"
    moreover have "a < length st"
      using below [OF smem a] by simp
    ultimately obtain l src where l: "l \<in> set (take i ls)" and src: "?byId (gId l) = Some src"
      and hit: "hits columns rows src a k"
      using pre [of a k] by auto
    from hit consider (col) "k = columns" "getSetting ColumnOffset src = Some a \<or> getSetting ColumnSpan src = Some a"
      | (row) "getSetting RowSpan src = Some a"
      by (auto simp: hits_def)
    then have "src = source \<and> (k = columns \<or> name = RowSpan)"
    proof cases
      case col
      with same [OF smem _ a] mem [OF src] show ?thesis by blast
    next
      case row
      with same [OF smem _ a row] mem [OF src] show ?thesis by blast
    qed
    with k have d: "distinct (map gId ls)" and same_item: "src = source" by auto
    from l obtain j where j: "j < i" "ls ! j = l"
      using i by (auto simp: in_set_conv_nth)
    from mem [OF src] same_item sid have "gId (ls ! j) = gId (ls ! i)" by (simp add: j)
    with d j i show False by (auto simp: distinct_conv_nth)
  qed
  \<comment> \<open>the column offset\<close>
  have offset_other: "readSetting st' (Some ro) k =
      (if changeFrom \<le> int i then None else readSetting st (itemColumnOffset source) k)"
    if k: "k \<noteq> columns" for k
  proof (cases "changeFrom \<le> int i \<or> itemColumnOffset source = None")
    case True
    with ro have r: "ro = length st1" by simp
    have "readSetting st' (Some ro) k = None"
      using fresh_later [of ro k] refs(4) now_ro [of k] fresh_before [of ro k] k r by simp
    with True show ?thesis by (auto simp: readSetting_def)
  next
    case False
    with ro have r: "getSetting ColumnOffset source = Some ro" by simp
    have "readSetting st' (Some ro) k = readSetting st (Some ro) k"
      using kept_later [OF r, of k] now_ro [of k] kept_before [OF r, of k] k by simp
    with False r show ?thesis by simp
  qed
  have offset_cleared: "readSetting st' (Some ro) columns = Some (gX (ls ! i))"
    if "changeFrom \<le> int i"
  proof -
    from that ro have r: "ro = length st1" by simp
    show ?thesis
      using fresh_later [of ro columns] refs(4) now_ro [of columns] r by simp
  qed
  have offset_current: "readSetting st' (Some ro) columns = Some (gX (ls ! i))"
    if d: "distinct (map gId ls)"
  proof (cases "changeFrom \<le> int i \<or> itemColumnOffset source = None")
    case True
    with ro have r: "ro = length st1" by simp
    show ?thesis
      using fresh_later [of ro columns] refs(4) now_ro [of columns] r by simp
  next
    case False
    with ro have r: "getSetting ColumnOffset source = Some ro" by simp
    show ?thesis
      using kept_later [OF r, of columns] now_ro [of columns] d by simp
  qed
  \<comment> \<open>the column span\<close>
  have span_other: "readSetting st' (Some rs) k = readSetting st (itemColumnSpan source) k"
    if k: "k \<noteq> columns" for k
  proof (cases "itemColumnSpan source")
    case None
    with rs have r: "length st1 \<le> rs" by simp
    have "readSetting st' (Some rs) k = None"
      using fresh_later [of rs k] refs(5) now_rs [of k] fresh_before [of rs k] k r by simp
    with None show ?thesis by (simp add: readSetting_def)
  next
    case (Some a)
    with rs have r: "getSetting ColumnSpan source = Some rs" by simp
    have "readSetting st' (Some rs) k = readSetting st (Some rs) k"
      using kept_later [OF r, of k] now_rs [of k] kept_before [OF r, of k] k by simp
    with r show ?thesis by simp
  qed
  have span_current: "readSetting st' (Some rs) columns = Some (gWidth (ls ! i))"
    if d: "distinct (map gId ls)"
  proof (cases "itemColumnSpan source")
    case None
    with rs have r: "length st1 \<le> rs" by simp
    show ?thesis
      using fresh_later [of rs columns] refs(5) now_rs [of columns] r by simp
  next
    case (Some a)
    with rs have r: "getSetting ColumnSpan source = Some rs" by simp
    show ?thesis
      using kept_later [OF r, of columns] now_rs [of columns] d by simp
  qed
  have "itemId item = gId (ls ! i)" using spec(2) sid by simp
  with source offset_other offset_cleared offset_current span_other span_current
  show ?thesis
    unfolding item_def [symmetric] refs by blast
qed

text \<open>\<^verbatim>\<open>transformItems\<close> returns when the layout sorts, is no longer than the source
  items (so that \<^verbatim>\<open>sourceItems[index]\<close> exists in \<^verbatim>\<open>findIndex\<close>) and names source items only
  (so that \<^verbatim>\<open>getItem\<close> does not throw).\<close>

lemma transformItems_returns:
  assumes sorted: "sortItems (gridItems gridLayout) = Inr sortedLayout"
    and fits: "length sortedLayout \<le> length sourceItems"
    and known: "set (map gId sortedLayout) \<subseteq> set (map itemId sourceItems)"
  shows "\<exists>st' items'. transformItems st sourceItems gridLayout = Inr (st', items')"
proof -
  from findIndex_loop_total [OF fits, of 0]
  obtain found where found: "findIndex_loop sourceItems sortedLayout 0 = Inr found" by blast
  define changeFrom where "changeFrom = (if found \<noteq> - 1 then found else int (length sortedLayout) - 1)"
  have "\<forall>l \<in> set sortedLayout. \<exists>item. itemById sourceItems (gId l) = Some item \<and> itemId item = gId l"
  proof
    fix l assume "l \<in> set sortedLayout"
    with known have "gId l \<in> itemId ` set sourceItems" by auto
    from itemById_dom [OF this] obtain item where "itemById sourceItems (gId l) = Some item" ..
    with itemById_Some [OF this]
    show "\<exists>item. itemById sourceItems (gId l) = Some item \<and> itemId item = gId l" by blast
  qed
  from transformItems_loop_ids [OF this, of changeFrom "gridColumns gridLayout" "gridRows gridLayout" 0 st "[]"]
  obtain st' items' where
    "transformItems_loop (itemById sourceItems) changeFrom (gridColumns gridLayout)
       (gridRows gridLayout) sortedLayout 0 st [] = Inr (st', items')"
    by auto
  then have "transformItems st sourceItems gridLayout = Inr (st', items')"
    by (simp add: transformItems_def sorted changeFromIndex_def found changeFrom_def)
  then show ?thesis by blast
qed

text \<open>
  C4, as stated, fails in its last part. Items A and B, laid out side by side in their own
  order: the row-major order does not diverge, \<^verbatim>\<open>changeFromIndex\<close> falls back to the last
  index 1, and B's offset hint for 2 columns is cleared (A's is kept).
\<close>

theorem transformItems_clears_last_offset:
  "map itemId twoPinned = map gId (gridItems sideBySide) \<and>
   sortItems (gridItems sideBySide) = Inr (gridItems sideBySide) \<and>
   changeFromIndex twoPinned (gridItems sideBySide) = Inr 1 \<and>
   readSetting twoPinnedStore (itemColumnOffset (twoPinned ! 1)) 2 = Some 0 \<and>
   returnedSetting ColumnOffset (transformItems twoPinnedStore twoPinned sideBySide) 1 2 = Inr None \<and>
   returnedSetting ColumnOffset (transformItems twoPinnedStore twoPinned sideBySide) 1 4 = Inr (Some 2) \<and>
   returnedSetting ColumnOffset (transformItems twoPinnedStore twoPinned sideBySide) 0 2 = Inr (Some 1)"
  by code_simp

text \<open>
  C4, amended: \<open>changeFromIndex\<close> is the first index at which the ids of the sorted layout
  differ from the ids of the source items, and the last index when they do not differ. In
  the returned item at or after that index the column-offset setting holds the offset for
  the current column count and nothing else; in a returned item before that index the
  column-offset entries under every other column count are those of its source item. The
  source's setting objects are objects of the store, none of them shared; the layout is no
  longer than the source items and names source items only, and then \<open>transformItems\<close>
  returns.
\<close>

theorem transformItems_columnOffset_hints:
  assumes alloc: "allocated st sourceItems" and unsh: "unshared sourceItems"
    and sorted: "sortItems (gridItems gridLayout) = Inr sortedLayout"
    and fits: "length sortedLayout \<le> length sourceItems"
    and known: "set (map gId sortedLayout) \<subseteq> set (map itemId sourceItems)"
  shows "\<exists>st' items' changeFrom.
     transformItems st sourceItems gridLayout = Inr (st', items') \<and>
     changeFromIndex sourceItems sortedLayout = Inr changeFrom \<and>
     (if \<forall>i<length sortedLayout. itemId (sourceItems ! i) = gId (sortedLayout ! i)
      then changeFrom = int (length sortedLayout) - 1
      else 0 \<le> changeFrom \<and> nat changeFrom < length sortedLayout \<and>
           itemId (sourceItems ! nat changeFrom) \<noteq> gId (sortedLayout ! nat changeFrom) \<and>
           (\<forall>i<nat changeFrom. itemId (sourceItems ! i) = gId (sortedLayout ! i))) \<and>
     length items' = length sortedLayout \<and>
     (\<forall>i<length sortedLayout.
        \<exists>source. itemById sourceItems (gId (sortedLayout ! i)) = Some source \<and>
          itemId (items' ! i) = gId (sortedLayout ! i) \<and>
          (if changeFrom \<le> int i
           then \<forall>k. readSetting st' (itemColumnOffset (items' ! i)) k =
                  (if k = gridColumns gridLayout then Some (gX (sortedLayout ! i)) else None)
           else \<forall>k. k \<noteq> gridColumns gridLayout \<longrightarrow>
                  readSetting st' (itemColumnOffset (items' ! i)) k =
                  readSetting st (itemColumnOffset source) k))"
proof -
  from transformItems_returns [OF sorted fits known, of st]
  obtain st' items' where run: "transformItems st sourceItems gridLayout = Inr (st', items')"
    by blast
  from run sorted obtain changeFrom where cf: "changeFromIndex sourceItems sortedLayout = Inr changeFrom"
    and loop: "transformItems_loop (itemById sourceItems) changeFrom (gridColumns gridLayout)
                 (gridRows gridLayout) sortedLayout 0 st [] = Inr (st', items')"
    by (auto simp: transformItems_def split: sum.splits)
  from transformItems_loop_result [OF loop] have len: "length items' = length sortedLayout"
    by auto
  have each: "\<exists>source. itemById sourceItems (gId (sortedLayout ! i)) = Some source \<and>
          itemId (items' ! i) = gId (sortedLayout ! i) \<and>
          (if changeFrom \<le> int i
           then \<forall>k. readSetting st' (itemColumnOffset (items' ! i)) k =
                  (if k = gridColumns gridLayout then Some (gX (sortedLayout ! i)) else None)
           else \<forall>k. k \<noteq> gridColumns gridLayout \<longrightarrow>
                  readSetting st' (itemColumnOffset (items' ! i)) k =
                  readSetting st (itemColumnOffset source) k)"
    if i: "i < length sortedLayout" for i
  proof -
    from transformItems_loop_item [OF loop alloc unsh i]
    obtain source where s: "itemById sourceItems (gId (sortedLayout ! i)) = Some source"
      "itemId (items' ! i) = gId (sortedLayout ! i)"
      and other: "\<And>k. k \<noteq> gridColumns gridLayout \<Longrightarrow>
              readSetting st' (itemColumnOffset (items' ! i)) k =
                (if changeFrom \<le> int i then None else readSetting st (itemColumnOffset source) k)"
      and cleared: "changeFrom \<le> int i \<Longrightarrow>
              readSetting st' (itemColumnOffset (items' ! i)) (gridColumns gridLayout) =
                Some (gX (sortedLayout ! i))"
      by blast
    show ?thesis
    proof (cases "changeFrom \<le> int i")
      case True
      have "readSetting st' (itemColumnOffset (items' ! i)) k =
              (if k = gridColumns gridLayout then Some (gX (sortedLayout ! i)) else None)" for k
        using other [of k] cleared [OF True] True by simp
      with s True show ?thesis by auto
    next
      case False
      with other s show ?thesis by auto
    qed
  qed
  from run cf changeFromIndex_spec [OF cf] len each show ?thesis by blast
qed

theorem transformItems_columnOffset_hints_witness:
  "allocated twoPinnedStore twoPinned \<and> unshared twoPinned \<and>
   sortItems (gridItems sideBySide) = Inr (gridItems sideBySide) \<and>
   length (gridItems sideBySide) \<le> length twoPinned \<and>
   set (map gId (gridItems sideBySide)) \<subseteq> set (map itemId twoPinned) \<and>
   (\<exists>st' items' changeFrom.
      transformItems twoPinnedStore twoPinned sideBySide = Inr (st', items') \<and>
      changeFromIndex twoPinned (gridItems sideBySide) = Inr changeFrom \<and>
      (if \<forall>i<length (gridItems sideBySide). itemId (twoPinned ! i) = gId (gridItems sideBySide ! i)
       then changeFrom = int (length (gridItems sideBySide)) - 1
       else 0 \<le> changeFrom \<and> nat changeFrom < length (gridItems sideBySide) \<and>
            itemId (twoPinned ! nat changeFrom) \<noteq> gId (gridItems sideBySide ! nat changeFrom) \<and>
            (\<forall>i<nat changeFrom. itemId (twoPinned ! i) = gId (gridItems sideBySide ! i))) \<and>
      length items' = length (gridItems sideBySide) \<and>
      (\<forall>i<length (gridItems sideBySide).
         \<exists>source. itemById twoPinned (gId (gridItems sideBySide ! i)) = Some source \<and>
           itemId (items' ! i) = gId (gridItems sideBySide ! i) \<and>
           (if changeFrom \<le> int i
            then \<forall>k. readSetting st' (itemColumnOffset (items' ! i)) k =
                   (if k = gridColumns sideBySide then Some (gX (gridItems sideBySide ! i)) else None)
            else \<forall>k. k \<noteq> gridColumns sideBySide \<longrightarrow>
                   readSetting st' (itemColumnOffset (items' ! i)) k =
                   readSetting twoPinnedStore (itemColumnOffset source) k)))"
proof -
  have alloc: "allocated twoPinnedStore twoPinned" by code_simp
  have unsh: "unshared twoPinned" by code_simp
  have sorted: "sortItems (gridItems sideBySide) = Inr (gridItems sideBySide)" by code_simp
  have fits: "length (gridItems sideBySide) \<le> length twoPinned" by code_simp
  have known: "set (map gId (gridItems sideBySide)) \<subseteq> set (map itemId twoPinned)" by code_simp
  from transformItems_columnOffset_hints [OF alloc unsh sorted fits known] alloc unsh sorted fits known
  show ?thesis by blast
qed

text \<open>
  C5, as stated, fails: with B moved above A the order diverges at index 0, and the returned
  A has lost its column offset for 2 columns, an entry under another column count.
\<close>

theorem transformItems_clears_reordered_offsets:
  "sortItems (gridItems swapped) = Inr [layoutItem ''B'' 0 0 4 1, layoutItem ''A'' 0 1 4 2] \<and>
   changeFromIndex twoPinned [layoutItem ''B'' 0 0 4 1, layoutItem ''A'' 0 1 4 2] = Inr 0 \<and>
   readSetting twoPinnedStore (itemColumnOffset (twoPinned ! 0)) 2 = Some 1 \<and>
   returnedSetting ColumnOffset (transformItems twoPinnedStore twoPinned swapped) 1 2 = Inr None \<and>
   returnedSetting ColumnOffset (transformItems twoPinnedStore twoPinned swapped) 1 4 = Inr (Some 0)"
  by code_simp

text \<open>
  The row span, for the record: \<^verbatim>\<open>writeItemSetting(item, "rowSpan", gridLayout.rows, height)\<close>
  files the height under the number of rows (3 here), not under the column count 4, where
  \<^verbatim>\<open>interpretItems\<close> looks for it.
\<close>

lemma transformItems_rowSpan_key:
  "gridColumns swapped = 4 \<and> gridRows swapped = Some 3 \<and>
   returnedSetting RowSpan (transformItems twoPinnedStore twoPinned swapped) 1 4 = Inr None \<and>
   returnedSetting RowSpan (transformItems twoPinnedStore twoPinned swapped) 1 3 = Inr (Some 2)"
  by code_simp

text \<open>
  C5, amended: for a layout with distinct ids, no longer than the source items and naming
  source items only, and source items whose setting objects are objects of the store, none
  of them shared, \<open>transformItems\<close> returns, and every returned item has, under the grid's
  column count, the column offset \<open>x\<close> and the column span \<open>width\<close> of its layout item; its
  column-span entries under every other column count are those of its source item; its
  column-offset entries under every other column count are those of its source item
  before \<open>changeFromIndex\<close> and absent from there on. (Nothing is said about the row span.)
\<close>

theorem transformItems_rewrites_current_columns:
  assumes alloc: "allocated st sourceItems" and unsh: "unshared sourceItems"
    and sorted: "sortItems (gridItems gridLayout) = Inr sortedLayout"
    and ids: "distinct (map gId sortedLayout)"
    and fits: "length sortedLayout \<le> length sourceItems"
    and known: "set (map gId sortedLayout) \<subseteq> set (map itemId sourceItems)"
  shows "\<exists>st' items' changeFrom.
     transformItems st sourceItems gridLayout = Inr (st', items') \<and>
     changeFromIndex sourceItems sortedLayout = Inr changeFrom \<and>
     length items' = length sortedLayout \<and>
     (\<forall>i<length sortedLayout.
        \<exists>source. itemById sourceItems (gId (sortedLayout ! i)) = Some source \<and>
          itemId (items' ! i) = gId (sortedLayout ! i) \<and>
          readSetting st' (itemColumnOffset (items' ! i)) (gridColumns gridLayout) =
            Some (gX (sortedLayout ! i)) \<and>
          readSetting st' (itemColumnSpan (items' ! i)) (gridColumns gridLayout) =
            Some (gWidth (sortedLayout ! i)) \<and>
          (\<forall>k. k \<noteq> gridColumns gridLayout \<longrightarrow>
             readSetting st' (itemColumnSpan (items' ! i)) k =
               readSetting st (itemColumnSpan source) k \<and>
             readSetting st' (itemColumnOffset (items' ! i)) k =
               (if changeFrom \<le> int i then None else readSetting st (itemColumnOffset source) k)))"
proof -
  from transformItems_returns [OF sorted fits known, of st]
  obtain st' items' where run: "transformItems st sourceItems gridLayout = Inr (st', items')"
    by blast
  from run sorted obtain changeFrom where cf: "changeFromIndex sourceItems sortedLayout = Inr changeFrom"
    and loop: "transformItems_loop (itemById sourceItems) changeFrom (gridColumns gridLayout)
                 (gridRows gridLayout) sortedLayout 0 st [] = Inr (st', items')"
    by (auto simp: transformItems_def split: sum.splits)
  from transformItems_loop_result [OF loop] have len: "length items' = length sortedLayout"
    by auto
  have each: "\<exists>source. itemById sourceItems (gId (sortedLayout ! i)) = Some source \<and>
          itemId (items' ! i) = gId (sortedLayout ! i) \<and>
          readSetting st' (itemColumnOffset (items' ! i)) (gridColumns gridLayout) =
            Some (gX (sortedLayout ! i)) \<and>
          readSetting st' (itemColumnSpan (items' ! i)) (gridColumns gridLayout) =
            Some (gWidth (sortedLayout ! i)) \<and>
          (\<forall>k. k \<noteq> gridColumns gridLayout \<longrightarrow>
             readSetting st' (itemColumnSpan (items' ! i)) k =
               readSetting st (itemColumnSpan source) k \<and>
             readSetting st' (itemColumnOffset (items' ! i)) k =
               (if changeFrom \<le> int i then None else readSetting st (itemColumnOffset source) k))"
    if i: "i < length sortedLayout" for i
    using transformItems_loop_item [OF loop alloc unsh i] ids by blast
  from run cf len each show ?thesis by blast
qed

theorem transformItems_rewrites_current_columns_witness:
  "allocated twoPinnedStore twoPinned \<and> unshared twoPinned \<and>
   sortItems (gridItems swapped) = Inr [layoutItem ''B'' 0 0 4 1, layoutItem ''A'' 0 1 4 2] \<and>
   distinct (map gId [layoutItem ''B'' 0 0 4 1, layoutItem ''A'' 0 1 4 2]) \<and>
   length [layoutItem ''B'' 0 0 4 1, layoutItem ''A'' 0 1 4 2] \<le> length twoPinned \<and>
   set (map gId [layoutItem ''B'' 0 0 4 1, layoutItem ''A'' 0 1 4 2]) \<subseteq> set (map itemId twoPinned) \<and>
   (\<exists>st' items' changeFrom.
      transformItems twoPinnedStore twoPinned swapped = Inr (st', items') \<and>
      changeFromIndex twoPinned [layoutItem ''B'' 0 0 4 1, layoutItem ''A'' 0 1 4 2] = Inr changeFrom \<and>
      length items' = length [layoutItem ''B'' 0 0 4 1, layoutItem ''A'' 0 1 4 2] \<and>
      (\<forall>i<length [layoutItem ''B'' 0 0 4 1, layoutItem ''A'' 0 1 4 2].
         \<exists>source.
           itemById twoPinned (gId ([layoutItem ''B'' 0 0 4 1, layoutItem ''A'' 0 1 4 2] ! i)) = Some source \<and>
           itemId (items' ! i) = gId ([layoutItem ''B'' 0 0 4 1, layoutItem ''A'' 0 1 4 2] ! i) \<and>
           readSetting st' (itemColumnOffset (items' ! i)) (gridColumns swapped) =
             Some (gX ([layoutItem ''B'' 0 0 4 1, layoutItem ''A'' 0 1 4 2] ! i)) \<and>
           readSetting st' (itemColumnSpan (items' ! i)) (gridColumns swapped) =
             Some (gWidth ([layoutItem ''B'' 0 0 4 1, layoutItem ''A'' 0 1 4 2] ! i)) \<and>
           (\<forall>k. k \<noteq> gridColumns swapped \<longrightarrow>
              readSetting st' (itemColumnSpan (items' ! i)) k =
                readSetting twoPinnedStore (itemColumnSpan source) k \<and>
              readSetting st' (itemColumnOffset (items' ! i)) k =
                (if changeFrom \<le> int i then None
                 else readSetting twoPinnedStore (itemColumnOffset source) k))))"
proof -
  have alloc: "allocated twoPinnedStore twoPinned" by code_simp
  have unsh: "unshared twoPinned" by code_simp
  have sorted: "sortItems (gridItems swapped) = Inr [layoutItem ''B'' 0 0 4 1, layoutItem ''A'' 0 1 4 2]"
    by code_simp
  have ids: "distinct (map gId [layoutItem ''B'' 0 0 4 1, layoutItem ''A'' 0 1 4 2])"
    by code_simp
  have fits: "length [layoutItem ''B'' 0 0 4 1, layoutItem ''A'' 0 1 4 2] \<le> length twoPinned"
    by code_simp
  have known: "set (map gId [layoutItem ''B'' 0 0 4 1, layoutItem ''A'' 0 1 4 2]) \<subseteq> set (map itemId twoPinned)"
    by code_simp
  from transformItems_rewrites_current_columns [OF alloc unsh sorted ids fits known]
    alloc unsh sorted ids fits known
  show ?thesis by blast
qed

section \<open>The layout engine as specified (C6, C7, C8)\<close>

lemma overlapping_iff: "overlapping a b = (\<exists>col row. inRectangle col row a \<and> inRectangle col row b)"
proof
  assume "overlapping a b"
  then have "inRectangle (max (rectX a) (rectX b)) (max (rectY a) (rectY b)) a \<and>
             inRectangle (max (rectX a) (rectX b)) (max (rectY a) (rectY b)) b"
    by (simp add: overlapping_def inRectangle_def)
  then show "\<exists>col row. inRectangle col row a \<and> inRectangle col row b" by blast
next
  assume "\<exists>col row. inRectangle col row a \<and> inRectangle col row b"
  then show "overlapping a b" by (auto simp: overlapping_def inRectangle_def)
qed

lemma anyOverlap_iff:
  "anyOverlap rs = (\<exists>i j. i < j \<and> j < length rs \<and> overlapping (rs ! i) (rs ! j))"
proof -
  have "anyOverlap rs = (\<not> sorted_wrt (\<lambda>a b. \<not> overlapping a b) rs)"
    by (induction rs) (auto simp: list_ex_iff)
  then show ?thesis by (auto simp: sorted_wrt_iff_nth_less)
qed

text \<open>The three grids of the test "throws if grid definition is not valid".\<close>

lemma construct_tests:
  "construct (testMatrix @ [cell ''X'' 3 1]) 3 = Inl (InvalidGrid outOfBounds)"
  "construct (testMatrix @ [cell ''X'' 2 1]) 3 = Inl (InvalidGrid overlap)"
  "construct ((cell ''A'' 0 0)\<lparr> rectWidth := 0 \<rparr> # tl testMatrix) 3 = Inl (InvalidGrid invalidSize)"
  by code_simp+

text \<open>
  C6: \<open>construct\<close> fails with one of three causes or returns the whole grid. It reports
  \<open>outOfBounds\<close> exactly when some rectangle is outside the boundaries; \<open>overlap\<close> exactly
  when none is outside and two rectangles share a cell; \<open>invalidSize\<close> exactly when none
  is outside, no two share a cell and some rectangle has a non-positive width or height;
  and it returns the grid, with all its rectangles, exactly when all three invariants hold.
\<close>

theorem construct_priority:
  "(construct rs columns = Inl (InvalidGrid outOfBounds)) =
     (\<exists>r \<in> set rs. outsideBoundaries columns r) \<and>
   (construct rs columns = Inl (InvalidGrid overlap)) =
     ((\<forall>r \<in> set rs. \<not> outsideBoundaries columns r) \<and>
      (\<exists>i j. i < j \<and> j < length rs \<and>
         (\<exists>col row. inRectangle col row (rs ! i) \<and> inRectangle col row (rs ! j)))) \<and>
   (construct rs columns = Inl (InvalidGrid invalidSize)) =
     ((\<forall>r \<in> set rs. \<not> outsideBoundaries columns r) \<and>
      \<not> (\<exists>i j. i < j \<and> j < length rs \<and>
         (\<exists>col row. inRectangle col row (rs ! i) \<and> inRectangle col row (rs ! j))) \<and>
      (\<exists>r \<in> set rs. rectWidth r \<le> 0 \<or> rectHeight r \<le> 0)) \<and>
   (construct rs columns = Inr \<lparr> rectangles = rs, columnCount = columns \<rparr>) =
     ((\<forall>r \<in> set rs. \<not> outsideBoundaries columns r) \<and>
      \<not> (\<exists>i j. i < j \<and> j < length rs \<and>
         (\<exists>col row. inRectangle col row (rs ! i) \<and> inRectangle col row (rs ! j))) \<and>
      (\<forall>r \<in> set rs. 0 < rectWidth r \<and> 0 < rectHeight r)) \<and>
   (construct rs columns = Inl (InvalidGrid outOfBounds) \<or>
    construct rs columns = Inl (InvalidGrid overlap) \<or>
    construct rs columns = Inl (InvalidGrid invalidSize) \<or>
    construct rs columns = Inr \<lparr> rectangles = rs, columnCount = columns \<rparr>)"
proof -
  have o: "anyOverlap rs = (\<exists>i j. i < j \<and> j < length rs \<and>
         (\<exists>col row. inRectangle col row (rs ! i) \<and> inRectangle col row (rs ! j)))"
    by (simp add: anyOverlap_iff overlapping_iff)
  show ?thesis
    unfolding o [symmetric]
    by (auto simp: construct_def list_ex_iff nonPositiveSize_def not_le not_less)
qed

theorem construct_priority_witness:
  "construct ((cell ''A'' 0 0)\<lparr> rectWidth := 0 \<rparr> # testMatrix @ [cell ''X'' 3 1]) 3 =
     Inl (InvalidGrid outOfBounds) \<and>
   list_ex (outsideBoundaries 3) ((cell ''A'' 0 0)\<lparr> rectWidth := 0 \<rparr> # testMatrix @ [cell ''X'' 3 1]) \<and>
   anyOverlap ((cell ''A'' 0 0)\<lparr> rectWidth := 0 \<rparr> # testMatrix @ [cell ''X'' 2 1]) \<and>
   list_ex nonPositiveSize ((cell ''A'' 0 0)\<lparr> rectWidth := 0 \<rparr> # testMatrix @ [cell ''X'' 2 1]) \<and>
   construct ((cell ''A'' 0 0)\<lparr> rectWidth := 0 \<rparr> # testMatrix @ [cell ''X'' 2 1]) 3 =
     Inl (InvalidGrid overlap)"
proof -
  have a: "list_ex (outsideBoundaries 3) ((cell ''A'' 0 0)\<lparr> rectWidth := 0 \<rparr> # testMatrix @ [cell ''X'' 3 1])"
    by code_simp
  then have "\<exists>r \<in> set ((cell ''A'' 0 0)\<lparr> rectWidth := 0 \<rparr> # testMatrix @ [cell ''X'' 3 1]).
               outsideBoundaries 3 r"
    unfolding list_ex_iff .
  with construct_priority [of "(cell ''A'' 0 0)\<lparr> rectWidth := 0 \<rparr> # testMatrix @ [cell ''X'' 3 1]" 3]
  have b: "construct ((cell ''A'' 0 0)\<lparr> rectWidth := 0 \<rparr> # testMatrix @ [cell ''X'' 3 1]) 3 =
     Inl (InvalidGrid outOfBounds)"
    by blast
  have c: "anyOverlap ((cell ''A'' 0 0)\<lparr> rectWidth := 0 \<rparr> # testMatrix @ [cell ''X'' 2 1])"
    "list_ex nonPositiveSize ((cell ''A'' 0 0)\<lparr> rectWidth := 0 \<rparr> # testMatrix @ [cell ''X'' 2 1])"
    "construct ((cell ''A'' 0 0)\<lparr> rectWidth := 0 \<rparr> # testMatrix @ [cell ''X'' 2 1]) 3 =
     Inl (InvalidGrid overlap)"
    by code_simp+
  from a b c show ?thesis by simp
qed

text \<open>The paths of the four normalization tests, and the failing commands of the tests
  "throws if move command is not valid" and "throws if resize command is not valid".\<close>

lemma normalizePath_tests:
  "normalizePath (0, 0) [(0, 0), (1, 0), (1, 1), (0, 1), (0, 0)] = []"
  "normalizePath (0, 0) [(1, 0), (1, 1), (0, 1), (0, 0)] = []"
  "normalizePath (0, 0) [(0, 0), (1, 0), (1, 1), (2, 1), (2, 0), (1, 0)] = [(1, 0)]"
  "normalizePath (1, 0) [(1, 0), (1, 1), (1, 2), (1, 1), (1, 2), (1, 3)] = [(1, 1), (1, 2), (1, 3)]"
  "normalizePath (0, 0) [(0, 0), (1, 1)] = [(1, 0), (1, 1)]"
  by code_simp+

lemma move_tests:
  "move relocate fullBoard ''X'' [(0, 0)] = Inl ItemNotFound"
  "move relocate fullBoard ''F'' [(3, 1)] = Inl OutOfBounds"
  "move relocate emptyBoard ''A'' [(1, 0), (1, 1), (0, 1), (0, 0)] = Inr (emptyBoard, [])"
  by (simp_all add: move_def findRectangle_def fullBoard_def emptyBoard_def testMatrix_def cell_def
      outsideBoundaries_def normalizePath_def fillGap.simps accept_def)

lemma resize_tests:
  "resize regrow fullBoard ''X'' [(1, 1)] = Inl ItemNotFound"
  "resize regrow squareBoard ''A'' [(1, 2), (0, 2)] = Inl InvalidResize"
  "resize regrow squareBoard ''A'' [(2, 1), (2, 0)] = Inl InvalidResize"
  "resize regrow squareBoard ''A'' [(3, 2)] = Inl OutOfBounds"
  by (simp_all add: resize_def findRectangle_def fullBoard_def squareBoard_def testMatrix_def cell_def
      outsideBoundaries_def normalizePath_def fillGap.simps accept_def)

lemma fillGap_same [simp]: "fillGap p p = []"
  by (subst fillGap.simps) simp

lemma fillGap_last: "p \<noteq> q \<Longrightarrow> fillGap p q \<noteq> [] \<and> last (fillGap p q) = q"
proof (induction p q rule: fillGap.induct)
  case (1 p q)
  note unfold = fillGap.simps [of p q]
  consider (right) "fst p < fst q" | (left) "fst q < fst p"
    | (down) "fst p = fst q" "snd p < snd q" | (up) "fst p = fst q" "snd q < snd p"
    using "1.prems"
    by (cases "fst p < fst q"; cases "fst q < fst p"; cases "snd p < snd q"; cases "snd q < snd p")
       (auto simp: prod_eq_iff)
  then show ?case
  proof cases
    case right
    show ?thesis
    proof (cases "(fst p + 1, snd p) = q")
      case True
      with right show ?thesis by (simp add: unfold)
    next
      case False
      from "1.IH"(1) [OF right False] right show ?thesis by (simp add: unfold)
    qed
  next
    case left
    then have nr: "\<not> fst p < fst q" by simp
    show ?thesis
    proof (cases "(fst p - 1, snd p) = q")
      case True
      with left nr show ?thesis by (simp add: unfold)
    next
      case False
      from "1.IH"(2) [OF nr left False] left nr show ?thesis by (simp add: unfold)
    qed
  next
    case down
    then have n: "\<not> fst p < fst q" "\<not> fst q < fst p" by simp_all
    show ?thesis
    proof (cases "(fst p, snd p + 1) = q")
      case True
      with down n show ?thesis by (simp add: unfold)
    next
      case False
      from "1.IH"(3) [OF n down(2) False] down n show ?thesis by (simp add: unfold)
    qed
  next
    case up
    then have n: "\<not> fst p < fst q" "\<not> fst q < fst p" "\<not> snd p < snd q" by simp_all
    show ?thesis
    proof (cases "(fst p, snd p - 1) = q")
      case True
      with up n show ?thesis by (simp add: unfold)
    next
      case False
      from "1.IH"(4) [OF n up(2) False] up n show ?thesis by (simp add: unfold)
    qed
  qed
qed

lemma accept_visitedFrom:
  assumes "visitedFrom origin visited"
  shows "visitedFrom origin (accept visited p)"
proof (cases "p \<in> set visited")
  case False
  with assms show ?thesis by (auto simp: visitedFrom_def accept_def)
next
  case True
  from assms obtain rest where v: "visited = origin # rest" and d: "distinct visited"
    by (cases visited) (auto simp: visitedFrom_def)
  have "distinct (takeWhile (\<lambda>q. q \<noteq> p) visited @ [p])"
    using d by (auto dest: set_takeWhileD)
  moreover have "hd (takeWhile (\<lambda>q. q \<noteq> p) visited @ [p]) = origin"
    by (simp add: v)
  ultimately show ?thesis using True by (simp add: visitedFrom_def accept_def)
qed

lemma foldl_accept_visitedFrom:
  "visitedFrom origin visited \<Longrightarrow> visitedFrom origin (foldl accept visited ps)"
  by (induction ps arbitrary: visited) (auto intro: accept_visitedFrom)

lemma normalize_visitedFrom:
  "visitedFrom origin visited \<Longrightarrow> visitedFrom origin (normalize visited ws)"
  by (induction ws arbitrary: visited) (auto intro: foldl_accept_visitedFrom)

lemma accept_origin:
  assumes "visitedFrom origin visited"
  shows "accept visited origin = [origin]"
proof -
  from assms obtain rest where "visited = origin # rest"
    by (cases visited) (auto simp: visitedFrom_def)
  then show ?thesis by (simp add: accept_def)
qed

lemma normalize_append: "normalize visited (ws @ vs) = normalize (normalize visited ws) vs"
  by (induction ws arbitrary: visited) auto

lemma visitedFrom_back:
  assumes "visitedFrom origin visited" and "last visited = origin"
  shows "visited = [origin]"
proof -
  from assms(1) obtain rest where v: "visited = origin # rest" and d: "distinct visited"
    by (cases visited) (auto simp: visitedFrom_def)
  show ?thesis
  proof (cases rest)
    case Nil
    with v show ?thesis by simp
  next
    case (Cons a as)
    with v assms(2) have "origin \<in> set rest" by (metis last_ConsR last_in_set list.distinct(1))
    with v d show ?thesis by simp
  qed
qed

lemma normalize_returns:
  assumes "visitedFrom origin visited"
  shows "normalize visited (ws @ [origin]) = [origin]"
proof -
  define v where "v = normalize visited ws"
  have inv: "visitedFrom origin v"
    unfolding v_def by (rule normalize_visitedFrom [OF assms])
  have "normalize visited (ws @ [origin]) = foldl accept v (fillGap (last v) origin)"
    by (simp add: normalize_append v_def)
  also have "\<dots> = [origin]"
  proof (cases "last v = origin")
    case True
    with visitedFrom_back [OF inv] show ?thesis by simp
  next
    case False
    from fillGap_last [OF False] obtain ps where ps: "fillGap (last v) origin = ps @ [origin]"
      by (metis append_butlast_last_id)
    have "visitedFrom origin (foldl accept v ps)"
      by (rule foldl_accept_visitedFrom [OF inv])
    from accept_origin [OF this] show ?thesis by (simp add: ps)
  qed
  finally show ?thesis .
qed

lemma normalizePath_returns:
  assumes "path \<noteq> []" and "last path = origin"
  shows "normalizePath origin path = []"
proof -
  from assms have "path = butlast path @ [origin]" by (metis append_butlast_last_id)
  moreover have "visitedFrom origin [origin]" by (simp add: visitedFrom_def)
  ultimately have "normalize [origin] path = [origin]"
    using normalize_returns [of origin "[origin]" "butlast path"] by simp
  then show ?thesis by (simp add: normalizePath_def)
qed

text \<open>
  C8: a move of an item of the grid along a path whose final waypoint is the item's
  position is a no-op, whatever the displacement of a single step does: the layout shift
  has no entry and the grid is the one before the call.
\<close>

theorem move_returning_path:
  assumes "findRectangle g i = Some r" and "path \<noteq> []" and "last path = (rectX r, rectY r)"
  shows "move relocate g i path = Inr (g, []) \<and> snapshotAfter g (move relocate g i path) = g"
  using assms normalizePath_returns [of path "(rectX r, rectY r)"]
  by (simp add: move_def snapshotAfter_def)

theorem move_returning_path_witness:
  "findRectangle emptyBoard ''A'' = Some (cell ''A'' 0 0) \<and>
   [(1, 0), (1, 1), (0, 1), (0, 0)] \<noteq> ([] :: Position list) \<and>
   last [(1, 0), (1, 1), (0, 1), (0, 0)] = (rectX (cell ''A'' 0 0), rectY (cell ''A'' 0 0)) \<and>
   move (\<lambda>s i p. None) emptyBoard ''A'' [(1, 0), (1, 1), (0, 1), (0, 0)] = Inr (emptyBoard, []) \<and>
   snapshotAfter emptyBoard (move (\<lambda>s i p. None) emptyBoard ''A'' [(1, 0), (1, 1), (0, 1), (0, 0)]) = emptyBoard"
proof -
  have f: "findRectangle emptyBoard ''A'' = Some (cell ''A'' 0 0)"
    by (simp add: findRectangle_def emptyBoard_def cell_def)
  have n: "[(1, 0), (1, 1), (0, 1), (0, 0)] \<noteq> ([] :: Position list)" by simp
  have l: "last [(1, 0), (1, 1), (0, 1), (0, 0)] = (rectX (cell ''A'' 0 0), rectY (cell ''A'' 0 0))"
    by (simp add: cell_def)
  from move_returning_path [OF f n l, of "\<lambda>s i p. None"] f n l show ?thesis by blast
qed

lemma last_accept [simp]: "last (accept visited p) = p"
  by (simp add: accept_def)

lemma normalize_last:
  assumes "visitedFrom origin visited" and "ws \<noteq> []"
  shows "last (normalize visited ws) = last ws"
proof -
  define v where "v = normalize visited (butlast ws)"
  from assms(2) have ws: "ws = butlast ws @ [last ws]" by simp
  have "normalize visited ws = foldl accept v (fillGap (last v) (last ws))"
    by (subst ws) (simp add: normalize_append v_def)
  also have "last \<dots> = last ws"
  proof (cases "last v = last ws")
    case True
    then show ?thesis by simp
  next
    case False
    from fillGap_last [OF False] obtain ps where "fillGap (last v) (last ws) = ps @ [last ws]"
      by (metis append_butlast_last_id)
    then show ?thesis by simp
  qed
  finally show ?thesis .
qed

lemma normalizePath_last:
  assumes "path \<noteq> []" and "last path \<noteq> origin"
  shows "normalizePath origin path \<noteq> [] \<and> last (normalizePath origin path) = last path"
proof -
  have inv: "visitedFrom origin [origin]" by (simp add: visitedFrom_def)
  from normalize_visitedFrom [OF inv, of path]
  obtain rest where n: "normalize [origin] path = origin # rest"
    by (cases "normalize [origin] path") (auto simp: visitedFrom_def)
  from normalize_last [OF inv assms(1)] n have l: "last (origin # rest) = last path" by simp
  with assms(2) have "rest \<noteq> []" by auto
  with l show ?thesis by (simp add: normalizePath_def n)
qed

text \<open>In terms of the path as given: a resize of an item of positive size whose final
  waypoint leaves it no width or no height fails with \<open>InvalidResize\<close>.\<close>

lemma resize_target_zero:
  assumes "findRectangle g i = Some r" and "0 < rectWidth r" and "0 < rectHeight r"
    and "path \<noteq> []" and "fst (last path) - rectX r \<le> 0 \<or> snd (last path) - rectY r \<le> 0"
  shows "resize regrow g i path = Inl InvalidResize"
proof -
  let ?origin = "(rectX r + rectWidth r, rectY r + rectHeight r)"
  from assms(2,3,5) have "last path \<noteq> ?origin" by auto
  from normalizePath_last [OF assms(4) this]
  have "last path \<in> set (normalizePath ?origin path)" by (metis last_in_set)
  with assms(1,5) show ?thesis
    by (auto simp: resize_def list_ex_iff Let_def)
qed

text \<open>
  C7: if some step of the normalized resize path brings the item's width or height to
  zero (or below), \<open>resize\<close> fails with \<open>InvalidResize\<close> and the snapshot held after the
  call is the one held before.
\<close>

theorem resize_to_zero_fails:
  assumes "findRectangle g i = Some r"
    and "\<exists>p \<in> set (normalizePath (rectX r + rectWidth r, rectY r + rectHeight r) path).
           fst p - rectX r \<le> 0 \<or> snd p - rectY r \<le> 0"
  shows "resize regrow g i path = Inl InvalidResize \<and> snapshotAfter g (resize regrow g i path) = g"
  using assms by (simp add: resize_def snapshotAfter_def list_ex_iff Let_def)

theorem resize_to_zero_fails_witness:
  "findRectangle squareBoard ''A'' = Some \<lparr> rectId = ''A'', rectX = 0, rectY = 0, rectWidth = 2, rectHeight = 2 \<rparr> \<and>
   list_ex (\<lambda>p. fst p - 0 \<le> 0 \<or> snd p - 0 \<le> 0) (normalizePath (0 + 2, 0 + 2) [(1, 2), (0, 2)]) \<and>
   resize (\<lambda>s i p. None) squareBoard ''A'' [(1, 2), (0, 2)] = Inl InvalidResize \<and>
   snapshotAfter squareBoard (resize (\<lambda>s i p. None) squareBoard ''A'' [(1, 2), (0, 2)]) = squareBoard"
proof -
  have f: "findRectangle squareBoard ''A'' =
      Some \<lparr> rectId = ''A'', rectX = 0, rectY = 0, rectWidth = 2, rectHeight = 2 \<rparr>"
    by (simp add: findRectangle_def squareBoard_def)
  have z: "list_ex (\<lambda>p. fst p - 0 \<le> 0 \<or> snd p - 0 \<le> 0) (normalizePath (0 + 2, 0 + 2) [(1, 2), (0, 2)])"
    by code_simp
  then have z': "\<exists>p \<in> set (normalizePath
        (rectX \<lparr> rectId = ''A'', rectX = 0, rectY = 0, rectWidth = 2, rectHeight = 2 \<rparr> +
           rectWidth \<lparr> rectId = ''A'', rectX = 0, rectY = 0, rectWidth = 2, rectHeight = 2 \<rparr>,
         rectY \<lparr> rectId = ''A'', rectX = 0, rectY = 0, rectWidth = 2, rectHeight = 2 \<rparr> +
           rectHeight \<lparr> rectId = ''A'', rectX = 0, rectY = 0, rectWidth = 2, rectHeight = 2 \<rparr>)
        [(1, 2), (0, 2)]).
      fst p - rectX \<lparr> rectId = ''A'', rectX = 0, rectY = 0, rectWidth = 2, rectHeight = 2 \<rparr> \<le> 0 \<or>
      snd p - rectY \<lparr> rectId = ''A'', rectX = 0, rectY = 0, rectWidth = 2, rectHeight = 2 \<rparr> \<le> 0"
    by (simp add: list_ex_iff)
  from resize_to_zero_fails [OF f z', of "\<lambda>s i p. None"] f z show ?thesis by blast
qed

end
